theory Spec2Isabelle
  imports Complex_Main "HOL-Library.Sublist" "HOL-Library.Multiset"
begin

section \<open>Python errors\<close>

text \<open>
  Every exception the modelled code can raise is a value of this type; a function that
  may raise returns \<open>py_error + 'a\<close>, with \<open>Inl\<close> for the exception.
\<close>

datatype py_error =
    AssertionError
  | AttributeError
  | IndexError
  | KeyError
  | ZeroDivisionError
  | NotImplementedError
  | RuntimeError
  | JSONDecodeError
  | PathTraversal
  | ValueError
  | TypeError

section \<open>Python slices\<close>

text \<open>
  A bound \<open>i\<close> of a slice of a sequence of length \<open>n\<close>: a negative bound counts from
  the end, and the bound is clipped to the sequence.
\<close>

definition slice_index :: "int \<Rightarrow> int \<Rightarrow> int" where
  "slice_index n i = (if i < 0 then max (i + n) 0 else min i n)"

section \<open>models/cnn/densenet.py: construction of the dense blocks\<close>

text \<open>
  \<open>Conv_Bn_Activation\<close> lives in \<open>models/_nets.py\<close>; a dense block only
  constructs it. The record keeps the constructor arguments the dense blocks pass
  (stride and dilation are always 1, the ordering is always "bac").
\<close>

record Conv_Bn_Activation =
  cba_in_channels :: int
  cba_out_channels :: int
  cba_kernel_size :: int
  cba_groups :: int

text \<open>The \<open>dropout\<close> argument is a float or a dict with the keys "p" and "type".\<close>

datatype dropout_type = Type1d | TypeNone | TypeOther

datatype dropout_arg = DropFloat real | DropDict dropout_type real

datatype dropout_module = Identity | Dropout real | Dropout1d real

definition make_dropout :: "dropout_arg \<Rightarrow> dropout_module" where
  "make_dropout d =
     (case d of
        DropDict ty p \<Rightarrow>
          (if ty = Type1d \<and> p > 0 then Dropout1d p
           else if ty = TypeNone \<and> p > 0 then Dropout p
           else Identity)
      | DropFloat p \<Rightarrow> (if p > 0 then Dropout p else Identity))"

record DenseBasicBlock =
  bb_in_channels :: int
  bb_growth_rate :: int
  bb_kernel_size :: int
  bb_groups :: int
  bb_bac :: Conv_Bn_Activation
  bb_dropout :: dropout_module

record DenseBottleNeck =
  bn_in_channels :: int
  bn_growth_rate :: int
  bn_bn_size :: int
  bn_kernel_size :: int
  bn_groups :: int
  bn_memory_efficient :: bool
  bn_neck_conv :: Conv_Bn_Activation
  bn_main_conv :: Conv_Bn_Activation
  bn_dropout :: dropout_module

text \<open>
  \<open>DenseBasicBlock.__init__\<close>: the two assertions come after the fields are set;
  \<open>x % 0\<close> raises \<open>ZeroDivisionError\<close>.
\<close>

definition DenseBasicBlock_init ::
  "int \<Rightarrow> int \<Rightarrow> int \<Rightarrow> int \<Rightarrow> dropout_arg \<Rightarrow> py_error + DenseBasicBlock" where
  "DenseBasicBlock_init in_channels growth_rate filter_length groups dropout =
     (if groups = 0 then Inl ZeroDivisionError
      else if in_channels mod groups \<noteq> 0 then Inl AssertionError
      else if growth_rate mod groups \<noteq> 0 then Inl AssertionError
      else Inr \<lparr> bb_in_channels = in_channels,
                 bb_growth_rate = growth_rate,
                 bb_kernel_size = filter_length,
                 bb_groups = groups,
                 bb_bac = \<lparr> cba_in_channels = in_channels,
                            cba_out_channels = growth_rate,
                            cba_kernel_size = filter_length,
                            cba_groups = groups \<rparr>,
                 bb_dropout = make_dropout dropout \<rparr>)"

definition DenseBottleNeck_init ::
  "int \<Rightarrow> int \<Rightarrow> int \<Rightarrow> int \<Rightarrow> int \<Rightarrow> dropout_arg \<Rightarrow> bool \<Rightarrow> DenseBottleNeck" where
  "DenseBottleNeck_init in_channels growth_rate bn_size filter_length groups dropout mem_eff =
     (let bottleneck_channels = bn_size * growth_rate
      in \<lparr> bn_in_channels = in_channels,
           bn_growth_rate = growth_rate,
           bn_bn_size = bn_size,
           bn_kernel_size = filter_length,
           bn_groups = groups,
           bn_memory_efficient = mem_eff,
           bn_neck_conv = \<lparr> cba_in_channels = in_channels,
                            cba_out_channels = bottleneck_channels,
                            cba_kernel_size = 1,
                            cba_groups = groups \<rparr>,
           bn_main_conv = \<lparr> cba_in_channels = bottleneck_channels,
                            cba_out_channels = growth_rate,
                            cba_kernel_size = filter_length,
                            cba_groups = groups \<rparr>,
           bn_dropout = make_dropout dropout \<rparr>)"

datatype building_block = Basic DenseBasicBlock | BottleNeck DenseBottleNeck

text \<open>The input channel count a building block was constructed with.\<close>

fun block_in_channels :: "building_block \<Rightarrow> int" where
  "block_in_channels (Basic b) = bb_in_channels b"
| "block_in_channels (BottleNeck b) = bn_in_channels b"

fun block_growth_rate :: "building_block \<Rightarrow> int" where
  "block_growth_rate (Basic b) = bb_growth_rate b"
| "block_growth_rate (BottleNeck b) = bn_growth_rate b"

text \<open>\<open>growth_rates\<close> and \<open>filter_lengths\<close> are an int or a sequence of ints.\<close>

datatype int_or_seq = OneInt int | IntSeq "int list"

definition as_list :: "int_or_seq \<Rightarrow> int \<Rightarrow> int list" where
  "as_list v num_layers =
     (case v of OneInt g \<Rightarrow> replicate (nat num_layers) g | IntSeq gs \<Rightarrow> gs)"

text \<open>
  The constructor call of the loop body of \<open>DenseMacroBlock.__init__\<close> at position
  \<open>idx\<close>; \<open>basic\<close> says whether \<open>config["building_block"]\<close> selected
  \<open>DenseBasicBlock\<close>.
\<close>

definition make_building_block ::
  "bool \<Rightarrow> int \<Rightarrow> int list \<Rightarrow> int \<Rightarrow> int list \<Rightarrow> int \<Rightarrow> dropout_arg \<Rightarrow> bool \<Rightarrow> nat
     \<Rightarrow> py_error + building_block" where
  "make_building_block basic in_channels growth_rates bn_size filter_lengths groups dropout
       mem_eff idx =
     (let ic = in_channels + int idx * (growth_rates ! idx);
          gr = growth_rates ! idx;
          fl = filter_lengths ! idx
      in if basic
         then (case DenseBasicBlock_init ic gr fl groups dropout of
                 Inl e \<Rightarrow> Inl e
               | Inr b \<Rightarrow> Inr (Basic b))
         else Inr (BottleNeck (DenseBottleNeck_init ic gr bn_size fl groups dropout mem_eff)))"

text \<open>\<open>for idx in range(num_layers): self.add_module(...)\<close>, stopping at the first raise.\<close>

fun add_modules :: "(nat \<Rightarrow> py_error + building_block) \<Rightarrow> nat list \<Rightarrow> py_error + building_block list" where
  "add_modules mk [] = Inr []"
| "add_modules mk (idx # rest) =
     (case mk idx of
        Inl e \<Rightarrow> Inl e
      | Inr b \<Rightarrow> (case add_modules mk rest of Inl e \<Rightarrow> Inl e | Inr bs \<Rightarrow> Inr (b # bs)))"

definition DenseMacroBlock_init ::
  "int \<Rightarrow> int \<Rightarrow> int_or_seq \<Rightarrow> int \<Rightarrow> int_or_seq \<Rightarrow> int \<Rightarrow> dropout_arg \<Rightarrow> bool \<Rightarrow> bool
     \<Rightarrow> py_error + building_block list" where
  "DenseMacroBlock_init in_channels num_layers growth_rates bn_size filter_lengths groups
       dropout basic mem_eff =
     (let grs = as_list growth_rates num_layers;
          fls = as_list filter_lengths num_layers
      in if int (length grs) \<noteq> num_layers then Inl AssertionError
         else if int (length fls) \<noteq> num_layers then Inl AssertionError
         else add_modules
                (make_building_block basic in_channels grs bn_size fls groups dropout mem_eff)
                [0 ..< nat num_layers])"

section \<open>models/cnn/densenet.py: the forward pass of the dense blocks\<close>











fun block_groups :: "building_block \<Rightarrow> int" where
  "block_groups (Basic b) = bb_groups b"
| "block_groups (BottleNeck b) = bn_groups b"





section \<open>cfg.py: the hierarchical update of CFG\<close>

text \<open>
  A configuration value is a mapping (a nested \<open>CFG\<close>; \<open>EasyDict\<close> turns every dict
  it stores into one) or anything else. A \<open>CFG\<close> is a dict: an association list in
  insertion order.
\<close>

datatype 'a cfg_value = Leaf 'a | Mapping "(string \<times> 'a cfg_value) list"

type_synonym 'a CFG = "(string \<times> 'a cfg_value) list"

text \<open>\<open>setattr(self, k, v)\<close>: an existing key keeps its place, a new key goes last.\<close>

fun setattr :: "string \<Rightarrow> 'v \<Rightarrow> (string \<times> 'v) list \<Rightarrow> (string \<times> 'v) list" where
  "setattr k v [] = [(k, v)]"
| "setattr k v ((k', v') # ps) = (if k' = k then (k, v) # ps else (k', v') # setattr k v ps)"

text \<open>
  \<open>CFG.update(new_cfg)\<close> without keyword arguments. The loop visits the keys of
  \<open>new_cfg\<close> in order. Where the new value is a mapping and the key is in \<open>self\<close>,
  the code calls \<open>self[k].update(...)\<close> whatever \<open>self[k]\<close> is: on a value that is
  not a mapping the attribute lookup raises \<open>AttributeError\<close>.
\<close>

function update :: "'a CFG \<Rightarrow> 'a CFG \<Rightarrow> py_error + 'a CFG" where
  "update self [] = Inr self"
| "update self ((k, Leaf a) # rest) = update (setattr k (Leaf a) self) rest"
| "update self ((k, Mapping m) # rest) =
     (case map_of self k of
        None \<Rightarrow> update (setattr k (Mapping m) self) rest
      | Some (Leaf a) \<Rightarrow> Inl AttributeError
      | Some (Mapping s) \<Rightarrow>
          (case update s m of
             Inl e \<Rightarrow> Inl e
           | Inr s' \<Rightarrow> update (setattr k (Mapping s') self) rest))"
  by pat_completeness auto
termination
  by (relation "measure (\<lambda>(self, new). size_list (size_prod (\<lambda>_. 0) size) new)") auto

section \<open>utils/download.py: extraction of tar archives\<close>

text \<open>
  The functions of \<open>posixpath\<close> the check uses, after the standard library.
  \<open>str.split(sep)\<close>:
\<close>

fun split_on :: "char \<Rightarrow> string \<Rightarrow> string list" where
  "split_on c [] = [[]]"
| "split_on c (x # xs) =
     (if x = c then [] # split_on c xs
      else (case split_on c xs of w # ws \<Rightarrow> (x # w) # ws | [] \<Rightarrow> [[x]]))"

fun join_sep :: "string list \<Rightarrow> string" where
  "join_sep [] = []"
| "join_sep [c] = c"
| "join_sep (c # cs) = c @ ''/'' @ join_sep cs"

definition startswith :: "string \<Rightarrow> string \<Rightarrow> bool" where
  "startswith s p = (take (length p) s = p)"

definition endswith :: "string \<Rightarrow> string \<Rightarrow> bool" where
  "endswith s p = (drop (length s - length p) s = p \<and> length p \<le> length s)"

text \<open>\<open>os.path.join(a, b)\<close>.\<close>

definition path_join :: "string \<Rightarrow> string \<Rightarrow> string" where
  "path_join a b =
     (if startswith b ''/'' then b
      else if a = [] \<or> endswith a ''/'' then a @ b
      else a @ ''/'' @ b)"

text \<open>The loop of \<open>os.path.normpath\<close> over the components.\<close>

definition normpath_step :: "bool \<Rightarrow> string list \<Rightarrow> string \<Rightarrow> string list" where
  "normpath_step initial_slashes new_comps part =
     (if part = [] \<or> part = ''.'' then new_comps
      else if part \<noteq> ''..'' \<or> (\<not> initial_slashes \<and> new_comps = [])
              \<or> (new_comps \<noteq> [] \<and> last new_comps = ''..'')
      then new_comps @ [part]
      else if new_comps \<noteq> [] then butlast new_comps
      else new_comps)"

definition normpath :: "string \<Rightarrow> string" where
  "normpath path =
     (if path = [] then ''.''
      else
        let initial_slashes = startswith path ''/'';
            n_slashes = (if initial_slashes \<and> startswith path ''//'' \<and> \<not> startswith path ''///''
                         then 2 else if initial_slashes then 1 else 0 :: nat);
            comps = foldl (normpath_step initial_slashes) [] (split_on CHR ''/'' path);
            p = replicate n_slashes CHR ''/'' @ join_sep comps
        in if p = [] then ''.'' else p)"

text \<open>\<open>os.path.abspath\<close>; the working directory of the process is \<open>cwd\<close>.\<close>

definition abspath :: "string \<Rightarrow> string \<Rightarrow> string" where
  "abspath cwd path = normpath (if startswith path ''/'' then path else path_join cwd path)"

text \<open>
  \<open>os.path.commonprefix\<close> of two strings is their longest common prefix, taken
  character by character.
\<close>

definition is_within_directory :: "string \<Rightarrow> string \<Rightarrow> string \<Rightarrow> bool" where
  "is_within_directory cwd directory target =
     (let abs_directory = abspath cwd directory;
          abs_target = abspath cwd target;
          prefix = longest_common_prefix abs_directory abs_target
      in prefix = abs_directory)"

record TarInfo =
  name :: string

text \<open>
  \<open>_safe_tar_extract(tar, dst_dir, members)\<close>. \<open>tar\<close> is the list
  \<open>tar.getmembers()\<close>. \<open>tarfile.TarFile.extractall\<close> belongs to the standard
  library and is the parameter \<open>extractall\<close>: it takes the file system, the
  destination and the \<open>members\<close> argument, and returns the file system after the
  extraction or an error.
\<close>

definition members_to_check :: "TarInfo list \<Rightarrow> TarInfo list option \<Rightarrow> TarInfo list" where
  "members_to_check tar members =
     (case members of None \<Rightarrow> tar | Some ms \<Rightarrow> (if ms = [] then tar else ms))"

definition safe_tar_extract ::
  "('fs \<Rightarrow> string \<Rightarrow> TarInfo list option \<Rightarrow> py_error + 'fs) \<Rightarrow> string \<Rightarrow> 'fs
     \<Rightarrow> TarInfo list \<Rightarrow> string \<Rightarrow> TarInfo list option \<Rightarrow> py_error + 'fs" where
  "safe_tar_extract extractall cwd fs tar dst_dir members =
     (if \<exists>member \<in> set (members_to_check tar members).
           \<not> is_within_directory cwd dst_dir (path_join dst_dir (name member))
      then Inl PathTraversal
      else extractall fs dst_dir members)"

text \<open>
  A path is inside a directory when the components of the directory's absolute path are
  the first components of the path's absolute path. This is the notion the claim about
  \<open>_safe_tar_extract\<close> uses; the code compares characters instead.
\<close>

definition path_inside :: "string \<Rightarrow> string \<Rightarrow> string \<Rightarrow> bool" where
  "path_inside cwd directory target =
     prefix (filter (\<lambda>c. c \<noteq> []) (split_on CHR ''/'' (abspath cwd directory)))
            (filter (\<lambda>c. c \<noteq> []) (split_on CHR ''/'' (abspath cwd target)))"

section \<open>databases/physionet_databases/ltafdb.py: annotations of LTAFDB\<close>

text \<open>\<open>str.lower()\<close> on ASCII text.\<close>

definition lower_char :: "char \<Rightarrow> char" where
  "lower_char c =
     (case map_of (zip ''ABCDEFGHIJKLMNOPQRSTUVWXYZ'' ''abcdefghijklmnopqrstuvwxyz'') c of
        Some d \<Rightarrow> d
      | None \<Rightarrow> c)"

definition lower :: "string \<Rightarrow> string" where
  "lower s = map lower_char s"

text \<open>\<open>x or d\<close> for an optional integer: \<open>None\<close> and 0 both give \<open>d\<close>.\<close>

definition py_or :: "int option \<Rightarrow> int \<Rightarrow> int" where
  "py_or x d = (case x of None \<Rightarrow> d | Some v \<Rightarrow> (if v = 0 then d else v))"

text \<open>
  \<open>ann[k].append(v)\<close> on a dict of lists. Both callers create the dict with every key
  they append to, so the \<open>KeyError\<close> of a missing key cannot happen.
\<close>

fun dict_append :: "string \<Rightarrow> 'v \<Rightarrow> (string \<times> 'v list) list \<Rightarrow> (string \<times> 'v list) list" where
  "dict_append k v [] = []"
| "dict_append k v ((k', l) # ps) =
     (if k' = k then (k', l @ [v]) # ps else (k', l) # dict_append k v ps)"

subsection \<open>Beat annotations\<close>

record BeatAnn =
  index :: int
  symbol :: string

definition beat_types :: "string list" where
  "beat_types = [''A'', ''N'', ''Q'', ''V'']"

datatype beat_result = Beats "BeatAnn list" | BeatDict "(string \<times> int list) list"

definition beat_step :: "(string \<times> int list) list \<Rightarrow> int \<times> string \<Rightarrow> (string \<times> int list) list" where
  "beat_step ann p =
     (case p of (idx, bt) \<Rightarrow> if bt \<notin> set beat_types then ann else dict_append bt idx ann)"

text \<open>
  \<open>LTAFDB.load_beat_ann\<close>. \<open>sig_len\<close> is the signal length of the record's header;
  \<open>rdann\<close> is \<open>wfdb.rdann\<close> on the record's \<open>.atr\<close> file: called with
  \<open>sampfrom\<close> and \<open>sampto\<close> it gives the attributes \<open>sample\<close> and \<open>symbol\<close>.
\<close>

definition load_beat_ann ::
  "int \<Rightarrow> (int \<Rightarrow> int option \<Rightarrow> int list \<times> string list) \<Rightarrow> int option \<Rightarrow> int option
     \<Rightarrow> string \<Rightarrow> bool \<Rightarrow> py_error + beat_result" where
  "load_beat_ann sig_len rdann sampfrom sampto beat_format keep_original =
     (if lower beat_format \<notin> set [''beat'', ''dict''] then Inl AssertionError
      else
        let sf = py_or sampfrom 0;
            st = py_or sampto sig_len
        in if \<not> st > sf then Inl AssertionError
           else
             let wfdb_ann = rdann sf sampto;
                 ann0 = foldl beat_step (map (\<lambda>k. (k, [])) beat_types)
                          (zip (fst wfdb_ann) (snd wfdb_ann));
                 ann = (if \<not> keep_original \<and> sampfrom \<noteq> None
                        then map (\<lambda>(k, v). (k, map (\<lambda>i. i - sf) v)) ann0
                        else ann0)
             in if lower beat_format = ''beat''
                then Inr (Beats (concat (map (\<lambda>(s, l). map (\<lambda>i. \<lparr>index = i, symbol = s\<rparr>) l) ann)))
                else Inr (BeatDict ann))"

subsection \<open>Rhythm annotations\<close>

type_synonym interval = "int \<times> int"

type_synonym ann_dict = "(string \<times> interval list) list"

definition rhythm_types :: "string list" where
  "rhythm_types =
     [''(N'', ''(AB'', ''(AFIB'', ''(B'', ''(IVR'', ''(SBR'', ''(SVTA'', ''(T'', ''(VT'', ''NOISE'']"

text \<open>\<open>k.replace("(", "")\<close>.\<close>

definition strip_paren :: "string \<Rightarrow> string" where
  "strip_paren k = filter (\<lambda>c. c \<noteq> CHR ''('') k"

definition rhythm_types_map :: "(string \<times> int) list" where
  "rhythm_types_map = map (\<lambda>(idx, k). (strip_paren k, int idx)) (enumerate 0 rhythm_types)"

text \<open>
  The body of the loop over \<open>zip(critical_points, aux_note)\<close>; the state is
  \<open>(ann, start, current_rhythm)\<close>.
\<close>

definition scan_step :: "ann_dict \<times> int \<times> string \<Rightarrow> int \<times> string \<Rightarrow> ann_dict \<times> int \<times> string" where
  "scan_step st p =
     (case st of (ann, start, current_rhythm) \<Rightarrow>
        (case p of (idx, rhythm) \<Rightarrow>
           if rhythm \<notin> set rhythm_types then st
           else (dict_append current_rhythm (start, idx) ann, idx, strip_paren rhythm)))"

text \<open>
  The scan of the whole record, from the creation of \<open>ann\<close> to the two appends after
  the loop. \<open>critical_points[-1]\<close> raises \<open>IndexError\<close> on an annotation file
  without samples.
\<close>

definition full_record_scan :: "int \<Rightarrow> int list \<Rightarrow> string list \<Rightarrow> py_error + ann_dict" where
  "full_record_scan sig_len critical_points aux_note =
     (case foldl scan_step (map (\<lambda>k. (k, [])) (map fst rhythm_types_map), 0, ''NOISE'')
             (zip critical_points aux_note) of
        (ann, start, current_rhythm) \<Rightarrow>
          if critical_points = [] then Inl IndexError
          else Inr (dict_append ''NOISE'' (last critical_points, sig_len)
                      (dict_append current_rhythm (start, last critical_points) ann)))"

text \<open>
  The database directory maps file names to contents. A file holds the JSON of an
  annotation dict, as \<open>json.dumps\<close> writes and \<open>json.loads\<close> reads it back, or
  something that is not JSON.
\<close>

datatype file_content = JsonAnn ann_dict | NotJson string

type_synonym directory = "string \<Rightarrow> file_content option"

text \<open>
  Lines 284 to 306: the annotation of the whole record, read from
  \<open>{rec}_ann.json\<close> when that file exists, otherwise scanned from the \<open>.atr\<close>
  annotation (\<open>wfdb_ann\<close>: its \<open>sample\<close> and \<open>aux_note\<close>) and written to that file.
\<close>

definition read_or_scan ::
  "directory \<Rightarrow> string \<Rightarrow> int \<Rightarrow> int list \<times> string list \<Rightarrow> directory \<times> (py_error + ann_dict)" where
  "read_or_scan db_dir rec sig_len wfdb_ann =
     (let simplified_fp = rec @ ''_ann.json''
      in case db_dir simplified_fp of
           Some (JsonAnn ann) \<Rightarrow> (db_dir, Inr ann)
         | Some (NotJson t) \<Rightarrow> (db_dir, Inl JSONDecodeError)
         | None \<Rightarrow>
             (case full_record_scan sig_len (fst wfdb_ann) (snd wfdb_ann) of
                Inl e \<Rightarrow> (db_dir, Inl e)
              | Inr ann \<Rightarrow> (db_dir(simplified_fp \<mapsto> JsonAnn ann), Inr ann)))"

text \<open>Assignment to a slice of a one-dimensional array, \<open>arr[a:b] = v\<close>.\<close>

definition slice_assign :: "int list \<Rightarrow> int \<Rightarrow> int \<Rightarrow> int \<Rightarrow> int list" where
  "slice_assign arr a b v =
     (let n = int (length arr);
          lo = slice_index n a;
          hi = slice_index n b
      in map (\<lambda>(j, x). if lo \<le> int j \<and> int j < hi then v else x) (enumerate 0 arr))"

text \<open>The two nested loops that fill the mask.\<close>

fun fill_mask :: "int \<Rightarrow> ann_dict \<Rightarrow> int list \<Rightarrow> py_error + int list" where
  "fill_mask sf [] arr = Inr arr"
| "fill_mask sf ((rhythm, l_itv) # rest) arr =
     (if l_itv = [] then fill_mask sf rest arr
      else (case map_of rhythm_types_map rhythm of
              None \<Rightarrow> Inl KeyError
            | Some code \<Rightarrow>
                fill_mask sf rest
                  (foldl (\<lambda>m itv. slice_assign m (fst itv - sf) (snd itv - sf) code) arr l_itv)))"

datatype rhythm_result = Intervals ann_dict | Mask "int list"

text \<open>
  Lines 308 to 320. \<open>generalized_intervals_intersection\<close> comes from
  \<open>utils/utils_interval.py\<close> and is the parameter \<open>gii\<close>.
\<close>

definition window_rhythm_ann ::
  "(interval list \<Rightarrow> interval list \<Rightarrow> interval list) \<Rightarrow> ann_dict \<Rightarrow> int \<Rightarrow> int \<Rightarrow> string \<Rightarrow> bool
     \<Rightarrow> py_error + rhythm_result" where
  "window_rhythm_ann gii ann0 sf st rhythm_format keep_original =
     (let ann1 = map (\<lambda>(k, l_itv). (k, gii l_itv [(sf, st)])) ann0;
          ann = filter (\<lambda>(k, l_itv). length l_itv > 0) ann1
      in if lower rhythm_format = ''mask''
         then (case map_of rhythm_types_map ''N'' of
                 None \<Rightarrow> Inl AttributeError
               | Some n \<Rightarrow>
                   (case fill_mask sf ann (replicate (nat (st - sf)) n) of
                      Inl e \<Rightarrow> Inl e
                    | Inr arr \<Rightarrow> Inr (Mask arr)))
         else if \<not> keep_original
         then Inr (Intervals (map (\<lambda>(k, l_itv). (k, map (\<lambda>itv. (fst itv - sf, snd itv - sf)) l_itv)) ann))
         else Inr (Intervals ann))"

text \<open>
  \<open>LTAFDB.load_rhythm_ann\<close>: the directory after the call and the value returned or
  the exception raised.
\<close>

definition load_rhythm_ann ::
  "(interval list \<Rightarrow> interval list \<Rightarrow> interval list) \<Rightarrow> directory \<Rightarrow> string \<Rightarrow> int
     \<Rightarrow> int list \<times> string list \<Rightarrow> int option \<Rightarrow> int option \<Rightarrow> string \<Rightarrow> bool
     \<Rightarrow> directory \<times> (py_error + rhythm_result)" where
  "load_rhythm_ann gii db_dir rec sig_len wfdb_ann sampfrom sampto rhythm_format keep_original =
     (if lower rhythm_format \<notin> set [''interval'', ''mask''] then (db_dir, Inl AssertionError)
      else
        let sf = py_or sampfrom 0;
            st = py_or sampto sig_len
        in if \<not> st > sf then (db_dir, Inl AssertionError)
           else (case read_or_scan db_dir rec sig_len wfdb_ann of
                   (db_dir', Inl e) \<Rightarrow> (db_dir', Inl e)
                 | (db_dir', Inr ann) \<Rightarrow>
                     (db_dir', window_rhythm_ann gii ann sf st rhythm_format keep_original)))"

section \<open>databases/base.py: loading the signals of a record\<close>

text \<open>
  A lead is given by its name or by a number; \<open>all_leads\<close> of LTAFDB is \<open>[0, 1]\<close>.
  The argument \<open>leads\<close> is \<open>None\<close>, one name or number, or a sequence of them.
\<close>

datatype lead = LeadName string | LeadNum int

datatype leads_arg = NoLeads | OneLead lead | LeadSeq "lead list"

text \<open>\<open>xs[i]\<close> on a list: a negative index counts from the end.\<close>

definition py_index :: "'a list \<Rightarrow> int \<Rightarrow> py_error + 'a" where
  "py_index xs i =
     (if 0 \<le> i \<and> i < int (length xs) then Inr (xs ! nat i)
      else if i < 0 \<and> - int (length xs) \<le> i then Inr (xs ! nat (i + int (length xs)))
      else Inl IndexError)"

text \<open>A list comprehension whose element expression may raise stops at the first raise.\<close>

fun sequence_sum :: "('e + 'a) list \<Rightarrow> 'e + 'a list" where
  "sequence_sum [] = Inr []"
| "sequence_sum (x # xs) =
     (case x of
        Inl e \<Rightarrow> Inl e
      | Inr v \<Rightarrow> (case sequence_sum xs of Inl e \<Rightarrow> Inl e | Inr vs \<Rightarrow> Inr (v # vs)))"

text \<open>
  \<open>_normalize_leads(leads, all_leads, numeric=False)\<close>. An exception inside the
  comprehension of the last branch is turned into \<open>AssertionError\<close>.
\<close>

definition normalize_leads :: "leads_arg \<Rightarrow> lead list \<Rightarrow> py_error + lead list" where
  "normalize_leads leads all_leads =
     (case (case leads of
              NoLeads \<Rightarrow> Inr all_leads
            | OneLead (LeadName s) \<Rightarrow> (if lower s = ''all'' then Inr all_leads else Inr [LeadName s])
            | OneLead (LeadNum i) \<Rightarrow>
                (if int (length all_leads) > i \<and> i \<ge> 0 then Inr [all_leads ! nat i]
                 else Inl AssertionError)
            | LeadSeq lds \<Rightarrow>
                (case sequence_sum
                        (map (\<lambda>ld. case ld of LeadName s \<Rightarrow> Inr ld | LeadNum i \<Rightarrow> py_index all_leads i)
                             lds) of
                   Inl e \<Rightarrow> Inl AssertionError
                 | Inr ls \<Rightarrow> Inr ls)) of
        Inl e \<Rightarrow> Inl e
      | Inr ls \<Rightarrow> (if set ls \<subseteq> set all_leads then Inr ls else Inl AssertionError))"

text \<open>\<open>all_leads.index(ld)\<close>: the first position of \<open>ld\<close>.\<close>

fun list_index :: "'a list \<Rightarrow> 'a \<Rightarrow> py_error + nat" where
  "list_index [] x = Inl ValueError"
| "list_index (y # ys) x =
     (if y = x then Inr 0
      else (case list_index ys x of Inl e \<Rightarrow> Inl e | Inr n \<Rightarrow> Inr (Suc n)))"

text \<open>
  What a record on disk holds, as the WFDB library reads it: the sampling frequency,
  the number of signals, and the physical and the digital signal, one row per sample and
  one column per channel. \<open>wfdb.rdrecord(fp, sampfrom, sampto, physical, channels)\<close>
  checks the window and the channel numbers and returns the rows of the window with the
  columns \<open>channels\<close>, in that order.
\<close>

record 'a wfdb_record =
  rec_fs :: real
  rec_n_sig :: nat
  rec_p_signal :: "'a list list"
  rec_d_signal :: "'a list list"

definition select_channels :: "nat list \<Rightarrow> 'a list list \<Rightarrow> 'a list list" where
  "select_channels channels sig = map (\<lambda>row. map (\<lambda>c. row ! c) channels) sig"

definition rdrecord ::
  "'a wfdb_record \<Rightarrow> int \<Rightarrow> int option \<Rightarrow> bool \<Rightarrow> nat list \<Rightarrow> py_error + 'a list list" where
  "rdrecord r sampfrom sampto physical channels =
     (let sig = (if physical then rec_p_signal r else rec_d_signal r);
          sig_len = int (length sig);
          st = (case sampto of None \<Rightarrow> sig_len | Some t \<Rightarrow> t)
      in if sampfrom < 0 \<or> sampfrom > sig_len \<or> st < 0 \<or> st > sig_len \<or> st \<le> sampfrom
            \<or> (\<exists>c \<in> set channels. c \<ge> rec_n_sig r)
         then Inl ValueError
         else Inr (select_channels channels (take (nat (st - sampfrom)) (drop (nat sampfrom) sig))))"

text \<open>
  \<open>data.T\<close> for an array with \<open>n_cols\<close> columns: row \<open>j\<close> of the result is
  column \<open>j\<close> of \<open>data\<close>.
\<close>

definition matrix_T :: "nat \<Rightarrow> 'a list list \<Rightarrow> 'a list list" where
  "matrix_T n_cols m = map (\<lambda>j. map (\<lambda>row. row ! j) m) [0 ..< n_cols]"

datatype 'a ndarray = Matrix "'a list list" | Vector "'a list"

text \<open>
  The attribute \<open>fs\<close> of the reader: absent, or present with a value that may be
  \<open>None\<close> (\<open>PhysioNetDataBase.__init__\<close> sets it to \<open>kwargs.get("fs", None)\<close>).
\<close>

datatype fs_attr = NoFs | Fs "real option"

text \<open>
  The three steps after the read: the choice of units (\<open>1000 * p_signal\<close> multiplies
  every entry; the multiplication is the parameter \<open>times1000\<close>), the output sampling
  frequency \<open>data_fs\<close>, and the resampling along axis 0. \<open>scipy.signal.resample_poly\<close>
  is the parameter \<open>resample_poly\<close>; it may raise.
\<close>

definition convert_units :: "('a \<Rightarrow> 'a) \<Rightarrow> string option \<Rightarrow> 'a list list \<Rightarrow> 'a list list" where
  "convert_units times1000 units sig =
     (if units = None then sig
      else if lower (the units) = ''mv'' then sig
      else map (map times1000) sig)"

definition output_fs :: "real option \<Rightarrow> fs_attr \<Rightarrow> 'a wfdb_record \<Rightarrow> real option" where
  "output_fs fs self_fs r =
     (case fs of
        Some f \<Rightarrow> Some f
      | None \<Rightarrow> (case self_fs of Fs a \<Rightarrow> a | NoFs \<Rightarrow> Some (rec_fs r)))"

definition resample_to ::
  "('a list list \<Rightarrow> real \<Rightarrow> real \<Rightarrow> py_error + 'a list list) \<Rightarrow> real \<Rightarrow> 'a wfdb_record
     \<Rightarrow> 'a list list \<Rightarrow> py_error + 'a list list" where
  "resample_to resample_poly data_fs r data =
     (if data_fs \<noteq> rec_fs r then resample_poly data data_fs (rec_fs r) else Inr data)"

text \<open>
  \<open>PhysioNetDataBase.load_data\<close>, in two parts: the lines from the check of
  \<open>units\<close> to the resampling are \<open>read_data\<close>. \<open>all_leads\<close> is the attribute of
  that name or, for a reader without it, the signal names of the header. When
  \<open>data_fs\<close> is \<open>None\<close> it differs from the frequency of the record, and
  \<open>resample_poly\<close> is called with \<open>up = None\<close>: its \<open>int(up)\<close> raises
  \<open>TypeError\<close>.
\<close>

definition allowed_units :: "string list" where
  "allowed_units = [''mv'', ''uv'', [CHR 0xCE, CHR 0xBC, CHR ''v''], ''muv'']"

definition allowed_data_format :: "string list" where
  "allowed_data_format
     = [''channel_first'', ''lead_first'', ''channel_last'', ''lead_last'', ''flat'', ''plain'']"

definition read_data ::
  "('a \<Rightarrow> 'a) \<Rightarrow> ('a list list \<Rightarrow> real \<Rightarrow> real \<Rightarrow> py_error + 'a list list) \<Rightarrow> lead list \<Rightarrow> fs_attr
     \<Rightarrow> 'a wfdb_record \<Rightarrow> lead list \<Rightarrow> int option \<Rightarrow> int option \<Rightarrow> string option \<Rightarrow> real option
     \<Rightarrow> py_error + ('a list list \<times> real)" where
  "read_data times1000 resample_poly all_leads self_fs r leads' sampfrom sampto units fs =
     (if \<not> (units = None \<or> lower (the units) \<in> set allowed_units)
      then Inl AssertionError
      else
        (case sequence_sum (map (list_index all_leads) leads') of
           Inl e \<Rightarrow> Inl e
         | Inr channels \<Rightarrow>
             (case rdrecord r (py_or sampfrom 0) sampto (units \<noteq> None) channels of
                Inl e \<Rightarrow> Inl e
              | Inr sig \<Rightarrow>
                  (case output_fs fs self_fs r of
                     None \<Rightarrow> Inl TypeError
                   | Some data_fs \<Rightarrow>
                       (case resample_to resample_poly data_fs r (convert_units times1000 units sig) of
                          Inl e \<Rightarrow> Inl e
                        | Inr data \<Rightarrow> Inr (data, data_fs))))))"

definition load_data ::
  "('a \<Rightarrow> 'a) \<Rightarrow> ('a list list \<Rightarrow> real \<Rightarrow> real \<Rightarrow> py_error + 'a list list) \<Rightarrow> lead list \<Rightarrow> fs_attr
     \<Rightarrow> 'a wfdb_record \<Rightarrow> leads_arg \<Rightarrow> int option \<Rightarrow> int option \<Rightarrow> string \<Rightarrow> string option
     \<Rightarrow> real option \<Rightarrow> bool \<Rightarrow> py_error + ('a ndarray \<times> real option)" where
  "load_data times1000 resample_poly all_leads self_fs r leads sampfrom sampto data_format units fs
       return_fs =
     (case normalize_leads leads all_leads of
        Inl e \<Rightarrow> Inl e
      | Inr leads' \<Rightarrow>
          if lower data_format \<notin> set allowed_data_format
          then Inl AssertionError
          else if length leads' > 1
                  \<and> lower data_format
                       \<notin> set [''channel_first'', ''lead_first'', ''channel_last'', ''lead_last'']
          then Inl AssertionError
          else
            (case read_data times1000 resample_poly all_leads self_fs r leads' sampfrom sampto units fs of
               Inl e \<Rightarrow> Inl e
             | Inr (data, data_fs) \<Rightarrow>
                 Inr (if lower data_format \<in> set [''channel_first'', ''lead_first'']
                      then Matrix (matrix_T (length leads') data)
                      else if lower data_format \<in> set [''flat'', ''plain'']
                      then Vector (concat data)
                      else Matrix data,
                      if return_fs then Some data_fs else None)))"

section \<open>Auxiliary notions for the results\<close>

text \<open>
  The appends of the scan loop in the order they happen: the log has one entry
  \<open>(current_rhythm, (start, idx))\<close> for every \<open>ann[current_rhythm].append([start, idx])\<close>.
\<close>

definition log_step ::
  "(string \<times> interval) list \<times> int \<times> string \<Rightarrow> int \<times> string
     \<Rightarrow> (string \<times> interval) list \<times> int \<times> string" where
  "log_step st p =
     (case st of (seq, start, current_rhythm) \<Rightarrow>
        (case p of (idx, rhythm) \<Rightarrow>
           if rhythm \<notin> set rhythm_types then st
           else (seq @ [(current_rhythm, (start, idx))], idx, strip_paren rhythm)))"

text \<open>The dict of lists that holds the entries of a log under their labels.\<close>

definition group_by :: "string list \<Rightarrow> (string \<times> 'v) list \<Rightarrow> (string \<times> 'v list) list" where
  "group_by ks seq = map (\<lambda>k. (k, map snd (filter (\<lambda>e. fst e = k) seq))) ks"

definition rhythm_keys :: "string list" where
  "rhythm_keys = map fst rhythm_types_map"

text \<open>
  A log is a chain from \<open>s\<close> to \<open>e\<close> when its first interval starts at \<open>s\<close>, every
  interval starts where the one before it ends and none ends before it starts, and the
  last one ends at \<open>e\<close>.
\<close>

fun chain :: "int \<Rightarrow> (string \<times> interval) list \<Rightarrow> int \<Rightarrow> bool" where
  "chain s [] e = (s = e)"
| "chain s (x # xs) e = (fst (snd x) = s \<and> s \<le> snd (snd x) \<and> chain (snd (snd x)) xs e)"

text \<open>A half-open interval \<open>[start, end)\<close> contains a sample.\<close>

definition covers :: "interval \<Rightarrow> int \<Rightarrow> bool" where
  "covers itv x = (fst itv \<le> x \<and> x < snd itv)"

text \<open>
  A stand-in for \<open>generalized_intervals_intersection\<close>, to run the rhythm annotations
  on: every interval of the first argument is cut to every window of the second, and what
  is left empty is dropped.
\<close>

definition clip_intervals :: "interval list \<Rightarrow> interval list \<Rightarrow> interval list" where
  "clip_intervals l ws =
     concat (map (\<lambda>w. filter (\<lambda>itv. fst itv < snd itv)
                         (map (\<lambda>itv. (max (fst itv) (fst w), min (snd itv) (snd w))) l)) ws)"


section \<open>Results about the dense blocks\<close>

text \<open>
  C1. The claim: the building block at position \<open>idx\<close> of a macro block is constructed
  with \<open>c + g_0 + ... + g_(idx-1)\<close> input channels. The constructor passes
  \<open>c + idx * g_idx\<close> instead. With \<open>c = 1\<close>, two layers and growth rates \<open>[1, 2]\<close>
  the block at position 1 is constructed with \<open>1 + 1 * 2 = 3\<close> input channels, while
  the block before it delivers \<open>1 + 1 = 2\<close> channels.
\<close>

theorem C1_macro_block_in_channels_at_failing_input:
  "map_sum id (map block_in_channels)
      (DenseMacroBlock_init 1 2 (IntSeq [1, 2]) 4 (OneInt 3) 1 (DropFloat 0) True False)
     = Inr [1, 3]
   \<and> 1 + sum_list (take 1 [1, 2 :: int]) = 2"
  by (simp add: DenseMacroBlock_init_def as_list_def make_building_block_def
        DenseBasicBlock_init_def make_dropout_def upt_rec)

text \<open>
  What the constructor does in general: the block at position \<open>idx\<close> gets
  \<open>c + idx * g_idx\<close> input channels and the growth rate \<open>g_idx\<close>. When all the growth
  rates are one integer this is the sum of the growth rates before position \<open>idx\<close>; the
  two differ only for a sequence of unequal growth rates.
\<close>

lemma add_modules_nth:
  "add_modules mk idxs = Inr bs \<Longrightarrow>
   length bs = length idxs \<and> (\<forall>j < length idxs. mk (idxs ! j) = Inr (bs ! j))"
proof (induction idxs arbitrary: bs)
  case Nil
  then show ?case by simp
next
  case (Cons i idxs)
  from Cons.prems obtain b bs' where b: "mk i = Inr b" and bs': "add_modules mk idxs = Inr bs'"
    and bs: "bs = b # bs'"
    by (auto split: sum.splits)
  from Cons.IH [OF bs'] b bs show ?case by (auto simp add: nth_Cons split: nat.splits)
qed

lemma make_building_block_channels:
  assumes "make_building_block basic c grs bn fls groups dropout mem_eff idx = Inr b"
  shows "block_in_channels b = c + int idx * (grs ! idx) \<and> block_growth_rate b = grs ! idx"
proof (cases basic)
  case True
  with assms show ?thesis
    by (auto simp add: make_building_block_def DenseBasicBlock_init_def Let_def
          split: sum.splits if_splits)
next
  case False
  with assms show ?thesis
    by (auto simp add: make_building_block_def DenseBottleNeck_init_def Let_def)
qed

lemma macro_block_channels:
  assumes "DenseMacroBlock_init c n growth_rates bn filter_lengths groups dropout basic mem_eff
             = Inr blocks"
  shows "int (length blocks) = n
       \<and> length (as_list growth_rates n) = length blocks
       \<and> (\<forall>idx < length blocks.
             block_in_channels (blocks ! idx) = c + int idx * (as_list growth_rates n ! idx)
           \<and> block_growth_rate (blocks ! idx) = as_list growth_rates n ! idx)"
proof -
  let ?grs = "as_list growth_rates n"
  let ?fls = "as_list filter_lengths n"
  from assms have len: "int (length ?grs) = n"
    and am: "add_modules (make_building_block basic c ?grs bn ?fls groups dropout mem_eff)
               [0 ..< nat n] = Inr blocks"
    by (auto simp add: DenseMacroBlock_init_def Let_def split: if_splits)
  from add_modules_nth [OF am]
  have l: "length blocks = nat n"
    and each: "\<forall>j < nat n. make_building_block basic c ?grs bn ?fls groups dropout mem_eff j
                                = Inr (blocks ! j)"
    by auto
  have "\<forall>idx < length blocks.
             block_in_channels (blocks ! idx) = c + int idx * (?grs ! idx)
           \<and> block_growth_rate (blocks ! idx) = ?grs ! idx"
    using each l make_building_block_channels by metis
  with l len show ?thesis by auto
qed

lemma uniform_growth_in_channels:
  assumes "DenseMacroBlock_init c n (OneInt g) bn filter_lengths groups dropout basic mem_eff
             = Inr blocks"
    and "idx < length blocks"
  shows "block_in_channels (blocks ! idx) = c + sum_list (take idx (map block_growth_rate blocks))"
proof -
  from macro_block_channels [OF assms(1)]
  have n: "int (length blocks) = n"
    and each: "\<forall>j < length blocks.
                 block_in_channels (blocks ! j) = c + int j * (replicate (nat n) g ! j)
               \<and> block_growth_rate (blocks ! j) = replicate (nat n) g ! j"
    by (simp_all add: as_list_def)
  have ln: "length blocks = nat n" using n by simp
  have "map block_growth_rate blocks = replicate (length blocks) g"
  proof (rule nth_equalityI)
    show "length (map block_growth_rate blocks) = length (replicate (length blocks) g)" by simp
  next
    fix j
    assume "j < length (map block_growth_rate blocks)"
    then have j: "j < length blocks" by simp
    with each ln show "map block_growth_rate blocks ! j = replicate (length blocks) g ! j" by simp
  qed
  then have "sum_list (take idx (map block_growth_rate blocks)) = int idx * g"
    using assms(2) by (simp add: take_replicate min_def sum_list_replicate)
  moreover have "block_in_channels (blocks ! idx) = c + int idx * g"
    using each assms(2) ln by simp
  ultimately show ?thesis by simp
qed

section \<open>Results about CFG.update\<close>

text \<open>
  C10. The claim: after \<open>c.update({k: m})\<close>, where \<open>c[k]\<close> is a mapping, the entries
  of \<open>c[k]\<close> whose keys are in \<open>m\<close> take \<open>m\<close>'s values. With
  \<open>c = {"k": {"a": 1}}\<close> and \<open>m = {"a": {"b": 2}}\<close> the call reaches
  \<open>c["k"]["a"].update(...)\<close> on the integer 1 and raises \<open>AttributeError\<close>:
  the entry never takes \<open>m\<close>'s value.
\<close>

theorem C10_update_raises_at_failing_input:
  "update [(''k'', Mapping [(''a'', Leaf (1 :: int))])]
          [(''k'', Mapping [(''a'', Mapping [(''b'', Leaf 2)])])]
     = Inl AttributeError"
  by simp

text \<open>
  When \<open>update\<close> returns it merges: keys that \<open>new_cfg\<close> does not name keep their
  values, a value that is not a mapping replaces the old one, and a mapping is merged
  into an old mapping and replaces anything else.
\<close>

lemma map_of_setattr: "map_of (setattr k v ps) = (map_of ps)(k \<mapsto> v)"
  by (induction ps) auto

lemma update_other_keys:
  "update self new = Inr self' \<Longrightarrow> k \<notin> fst ` set new \<Longrightarrow> map_of self' k = map_of self k"
proof (induction self new arbitrary: self' rule: update.induct)
  case (1 self)
  then show ?case by simp
next
  case (2 self k0 a rest)
  then show ?case by (simp add: map_of_setattr)
next
  case (3 self k0 m rest)
  show ?case
  proof (cases "map_of self k0")
    case None
    with 3 show ?thesis by (simp add: map_of_setattr)
  next
    case (Some old)
    show ?thesis
    proof (cases old)
      case (Leaf a)
      with 3 Some show ?thesis by simp
    next
      case (Mapping s)
      from "3.prems"(1) Some Mapping obtain s' where s': "update s m = Inr s'"
        and rest: "update (setattr k0 (Mapping s') self) rest = Inr self'"
        by (auto split: sum.splits)
      have "map_of self' k = map_of (setattr k0 (Mapping s') self) k"
        using "3.IH"(3) [OF Some Mapping s' rest] "3.prems"(2) by simp
      then show ?thesis using "3.prems"(2) by (simp add: map_of_setattr)
    qed
  qed
qed

lemma update_entries:
  assumes "update self new = Inr self'" and "distinct (map fst new)" and "map_of new k = Some v"
  shows "case v of
           Leaf a \<Rightarrow> map_of self' k = Some (Leaf a)
         | Mapping m \<Rightarrow>
             (case map_of self k of
                Some (Mapping s) \<Rightarrow> (\<exists>s'. update s m = Inr s' \<and> map_of self' k = Some (Mapping s'))
              | _ \<Rightarrow> map_of self' k = Some (Mapping m))"
  using assms
proof (induction new arbitrary: self)
  case Nil
  then show ?case by simp
next
  case (Cons p new)
  obtain k0 v0 where p: "p = (k0, v0)" by (cases p)
  have d: "distinct (map fst new)" and k0: "k0 \<notin> fst ` set new"
    using Cons.prems(2) p by auto
  show ?case
  proof (cases "k = k0")
    case False
    obtain self1 where s1: "update self1 new = Inr self'" and o: "map_of self1 k = map_of self k"
    proof (cases v0)
      case (Leaf a)
      with Cons.prems(1) p have "update (setattr k0 (Leaf a) self) new = Inr self'" by simp
      moreover have "map_of (setattr k0 (Leaf a) self) k = map_of self k"
        using False by (simp add: map_of_setattr)
      ultimately show ?thesis using that by blast
    next
      case (Mapping m0)
      show ?thesis
      proof (cases "map_of self k0")
        case None
        with Cons.prems(1) p Mapping have "update (setattr k0 (Mapping m0) self) new = Inr self'" by simp
        moreover have "map_of (setattr k0 (Mapping m0) self) k = map_of self k"
          using False by (simp add: map_of_setattr)
        ultimately show ?thesis using that by blast
      next
        case (Some old)
        show ?thesis
        proof (cases old)
          case (Leaf a)
          with Cons.prems(1) p Mapping Some show ?thesis by simp
        next
          case m1: (Mapping s0)
          from Cons.prems(1) p Mapping Some m1 obtain s' where
            "update (setattr k0 (Mapping s') self) new = Inr self'"
            by (auto split: sum.splits)
          moreover have "map_of (setattr k0 (Mapping s') self) k = map_of self k"
            using False by (simp add: map_of_setattr)
          ultimately show ?thesis using that by blast
        qed
      qed
    qed
    have "map_of new k = Some v" using Cons.prems(3) p False by simp
    from Cons.IH [OF s1 d this] show ?thesis unfolding o .
  next
    case True
    then have v: "v = v0" using Cons.prems(3) p by simp
    have notin: "k \<notin> fst ` set new" using True k0 by simp
    show ?thesis
    proof (cases v0)
      case (Leaf a)
      with Cons.prems(1) p have r: "update (setattr k0 (Leaf a) self) new = Inr self'" by simp
      from update_other_keys [OF r notin] True v Leaf show ?thesis by (simp add: map_of_setattr)
    next
      case (Mapping m0)
      show ?thesis
      proof (cases "map_of self k0")
        case None
        with Cons.prems(1) p Mapping have r: "update (setattr k0 (Mapping m0) self) new = Inr self'" by simp
        from update_other_keys [OF r notin] True v Mapping None show ?thesis
          by (simp add: map_of_setattr)
      next
        case (Some old)
        show ?thesis
        proof (cases old)
          case (Leaf a)
          with Cons.prems(1) p Mapping Some show ?thesis by simp
        next
          case m1: (Mapping s0)
          from Cons.prems(1) p Mapping Some m1 obtain s' where s': "update s0 m0 = Inr s'"
            and r: "update (setattr k0 (Mapping s') self) new = Inr self'"
            by (auto split: sum.splits)
          from update_other_keys [OF r notin] True v Mapping Some m1 s' show ?thesis
            by (simp add: map_of_setattr)
        qed
      qed
    qed
  qed
qed

lemma update_one_key_merges:
  assumes old: "map_of c k = Some (Mapping s)"
    and ret: "update c [(k, Mapping m)] = Inr c'"
    and keys: "distinct (map fst m)"
  shows "\<exists>s'. update s m = Inr s' \<and> map_of c' k = Some (Mapping s')
           \<and> (\<forall>j. j \<noteq> k \<longrightarrow> map_of c' j = map_of c j)
           \<and> (\<forall>j. j \<notin> fst ` set m \<longrightarrow> map_of s' j = map_of s j)
           \<and> (\<forall>j a. map_of m j = Some (Leaf a) \<longrightarrow> map_of s' j = Some (Leaf a))
           \<and> (\<forall>j n. map_of m j = Some (Mapping n) \<longrightarrow>
                  (case map_of s j of
                     Some (Mapping t) \<Rightarrow> (\<exists>t'. update t n = Inr t' \<and> map_of s' j = Some (Mapping t'))
                   | _ \<Rightarrow> map_of s' j = Some (Mapping n)))"
proof -
  from ret old obtain s' where s': "update s m = Inr s'" and c': "c' = setattr k (Mapping s') c"
    by (auto split: sum.splits)
  have a: "map_of c' k = Some (Mapping s')" unfolding c' by (simp add: map_of_setattr)
  have b: "\<forall>j. j \<noteq> k \<longrightarrow> map_of c' j = map_of c j" unfolding c' by (simp add: map_of_setattr)
  have c: "\<forall>j. j \<notin> fst ` set m \<longrightarrow> map_of s' j = map_of s j"
    using update_other_keys [OF s'] by blast
  have d: "\<forall>j a. map_of m j = Some (Leaf a) \<longrightarrow> map_of s' j = Some (Leaf a)"
    using update_entries [OF s' keys] by fastforce
  have e: "\<forall>j n. map_of m j = Some (Mapping n) \<longrightarrow>
                  (case map_of s j of
                     Some (Mapping t) \<Rightarrow> (\<exists>t'. update t n = Inr t' \<and> map_of s' j = Some (Mapping t'))
                   | _ \<Rightarrow> map_of s' j = Some (Mapping n))"
    using update_entries [OF s' keys] by fastforce
  from s' a b c d e show ?thesis by blast
qed

section \<open>Results about the extraction of tar archives\<close>

text \<open>
  C9. The claim: if a member would extract outside the destination directory,
  \<open>_safe_tar_extract\<close> raises before anything is extracted. With the destination
  \<open>/data/db\<close> and the single member \<open>../db_evil/x\<close>, the member's path is
  \<open>/data/db_evil/x\<close>, which is not inside \<open>/data/db\<close>; its longest common prefix
  with \<open>/data/db\<close> is \<open>/data/db\<close> itself, so the check passes and the archive
  goes to \<open>extractall\<close>.
\<close>

theorem C9_safe_tar_extract_passes_traversal:
  "safe_tar_extract extractall cwd fs [\<lparr>name = ''../db_evil/x''\<rparr>] ''/data/db'' None
     = extractall fs ''/data/db'' None
   \<and> abspath cwd (path_join ''/data/db'' ''../db_evil/x'') = ''/data/db_evil/x''
   \<and> \<not> path_inside cwd ''/data/db'' (path_join ''/data/db'' ''../db_evil/x'')"
  by (simp add: safe_tar_extract_def members_to_check_def is_within_directory_def
        abspath_def path_join_def startswith_def endswith_def normpath_def normpath_step_def
        path_inside_def)

section \<open>Results about the beat annotations\<close>

lemma dict_append_map:
  "distinct ks \<Longrightarrow>
   dict_append k v (map (\<lambda>k'. (k', f k')) ks)
     = map (\<lambda>k'. (k', if k' = k then f k' @ [v] else f k')) ks"
  by (induction ks) auto

lemma distinct_beat_types: "distinct beat_types"
  by (simp add: beat_types_def)

lemma foldl_beat_step:
  "foldl beat_step (map (\<lambda>k. (k, f k)) beat_types) zs
     = map (\<lambda>k. (k, f k @ map fst (filter (\<lambda>p. snd p = k) zs))) beat_types"
proof (induction zs arbitrary: f)
  case Nil
  show ?case by simp
next
  case (Cons z zs)
  obtain idx bt where z: "z = (idx, bt)" by (cases z)
  show ?case
  proof (cases "bt \<in> set beat_types")
    case False
    then have "\<And>k. k \<in> set beat_types \<Longrightarrow> snd z \<noteq> k" using z by auto
    then have "map (\<lambda>k. (k, f k @ map fst (filter (\<lambda>p. snd p = k) (z # zs)))) beat_types
             = map (\<lambda>k. (k, f k @ map fst (filter (\<lambda>p. snd p = k) zs))) beat_types"
      by simp
    moreover have "beat_step (map (\<lambda>k. (k, f k)) beat_types) z = map (\<lambda>k. (k, f k)) beat_types"
      using False z by (simp add: beat_step_def)
    ultimately show ?thesis using Cons.IH [of f] by simp
  next
    case True
    have "beat_step (map (\<lambda>k. (k, f k)) beat_types) z
            = map (\<lambda>k. (k, if k = bt then f k @ [idx] else f k)) beat_types"
      using True z by (simp add: beat_step_def dict_append_map [OF distinct_beat_types])
    then show ?thesis
      using Cons.IH [of "\<lambda>k. if k = bt then f k @ [idx] else f k"] z by (simp cong: map_cong)
  qed
qed

lemma mset_concat_groups:
  "distinct ks \<Longrightarrow>
   mset (concat (map (\<lambda>k. map (\<lambda>i. g i k) (map fst (filter (\<lambda>p. snd p = k) zs))) ks))
     = image_mset (\<lambda>p. g (fst p) (snd p)) (filter_mset (\<lambda>p. snd p \<in> set ks) (mset zs))"
proof (induction ks)
  case Nil
  show ?case by simp
next
  case (Cons k ks)
  have split: "filter_mset (\<lambda>p. snd p = k \<or> snd p \<in> set ks) (mset zs)
        = filter_mset (\<lambda>p. snd p = k) (mset zs) + filter_mset (\<lambda>p. snd p \<in> set ks) (mset zs)"
    using Cons.prems by (induction zs) auto
  have "mset (map (\<lambda>i. g i k) (map fst (filter (\<lambda>p. snd p = k) zs)))
          = image_mset (\<lambda>p. g (fst p) (snd p)) (filter_mset (\<lambda>p. snd p = k) (mset zs))"
    by (induction zs) auto
  then show ?case using Cons by (simp add: split)
qed

text \<open>
  C6. For a valid window, \<open>load_beat_ann\<close> returns, and what it returns holds only
  the annotations whose symbol is one of "A", "N", "Q", "V": in the "dict" format one
  list of sample indices for each of the four symbols, in the "beat" format one
  \<open>BeatAnn\<close> for each such annotation and no other element, pairing the sample index
  (less \<open>sampfrom\<close> unless \<open>keep_original\<close>) with its symbol. No returned symbol
  is the double quote or "+".
\<close>

theorem C6_load_beat_ann:
  assumes fmt: "lower beat_format \<in> {''beat'', ''dict''}"
    and window: "py_or sampfrom 0 < py_or sampto sig_len"
    and ann: "rdann (py_or sampfrom 0) sampto = (samples, symbols)"
  shows "\<exists>bs d.
           load_beat_ann sig_len rdann sampfrom sampto beat_format keep_original
             = Inr (if lower beat_format = ''beat'' then Beats bs else BeatDict d)
           \<and> d = map (\<lambda>k. (k, map (\<lambda>p. fst p - (if \<not> keep_original \<and> sampfrom \<noteq> None
                                                     then py_or sampfrom 0 else 0))
                                  (filter (\<lambda>p. snd p = k) (zip samples symbols))))
                      [''A'', ''N'', ''Q'', ''V'']
           \<and> mset bs =
               image_mset
                 (\<lambda>p. \<lparr>index = fst p - (if \<not> keep_original \<and> sampfrom \<noteq> None
                                         then py_or sampfrom 0 else 0),
                        symbol = snd p\<rparr>)
                 (filter_mset (\<lambda>p. snd p \<in> {''A'', ''N'', ''Q'', ''V''}) (mset (zip samples symbols)))
           \<and> (\<forall>b \<in> set bs. symbol b \<in> {''A'', ''N'', ''Q'', ''V''}
                  \<and> symbol b \<noteq> [CHR 0x22] \<and> symbol b \<noteq> ''+'')"
proof -
  let ?sf = "py_or sampfrom 0"
  let ?d = "if \<not> keep_original \<and> sampfrom \<noteq> None then ?sf else 0"
  let ?zs = "zip samples symbols"
  let ?bs = "concat (map (\<lambda>k. map (\<lambda>i. \<lparr>index = i - ?d, symbol = k\<rparr>)
                                (map fst (filter (\<lambda>p. snd p = k) ?zs))) beat_types)"
  let ?dict = "map (\<lambda>k. (k, map (\<lambda>p. fst p - ?d) (filter (\<lambda>p. snd p = k) ?zs))) beat_types"
  have fold: "foldl beat_step (map (\<lambda>k. (k, [])) beat_types) ?zs
                = map (\<lambda>k. (k, map fst (filter (\<lambda>p. snd p = k) ?zs))) beat_types"
    using foldl_beat_step [of "\<lambda>k. []" ?zs] by simp
  have res: "load_beat_ann sig_len rdann sampfrom sampto beat_format keep_original
               = Inr (if lower beat_format = ''beat'' then Beats ?bs else BeatDict ?dict)"
    using fmt window ann
    by (simp add: load_beat_ann_def Let_def fold comp_def)
  have m: "mset ?bs = image_mset (\<lambda>p. \<lparr>index = fst p - ?d, symbol = snd p\<rparr>)
                        (filter_mset (\<lambda>p. snd p \<in> set beat_types) (mset ?zs))"
    using mset_concat_groups [OF distinct_beat_types, of "\<lambda>i k. \<lparr>index = i - ?d, symbol = k\<rparr>" ?zs]
    by simp
  have bt: "beat_types = [''A'', ''N'', ''Q'', ''V'']"
    by (simp add: beat_types_def)
  have "\<forall>b \<in> set ?bs. symbol b \<in> set beat_types"
    by auto
  then have s: "\<forall>b \<in> set ?bs. symbol b \<in> {''A'', ''N'', ''Q'', ''V''}
                  \<and> symbol b \<noteq> [CHR 0x22] \<and> symbol b \<noteq> ''+''"
    unfolding bt by auto
  have m': "mset ?bs = image_mset (\<lambda>p. \<lparr>index = fst p - ?d, symbol = snd p\<rparr>)
                        (filter_mset (\<lambda>p. snd p \<in> {''A'', ''N'', ''Q'', ''V''}) (mset ?zs))"
    using m unfolding bt by simp
  have d: "?dict = map (\<lambda>k. (k, map (\<lambda>p. fst p - ?d) (filter (\<lambda>p. snd p = k) ?zs)))
                     [''A'', ''N'', ''Q'', ''V'']"
    unfolding bt ..
  show ?thesis
    using res d m' s by blast
qed

theorem C6_load_beat_ann_witness:
  "lower ''Beat'' \<in> {''beat'', ''dict''}
   \<and> py_or (Some 2) 0 < py_or (Some 50) 100
   \<and> load_beat_ann 100 (\<lambda>sf st. ([3, 10, 20, 30], [''N'', ''+'', ''V'', [CHR 0x22]]))
         (Some 2) (Some 50) ''Beat'' False
       = Inr (Beats [\<lparr>index = 1, symbol = ''N''\<rparr>, \<lparr>index = 18, symbol = ''V''\<rparr>])"
proof -
  have h1: "lower ''Beat'' \<in> {''beat'', ''dict''}"
    by (simp add: lower_def lower_char_def)
  have h2: "py_or (Some 2) 0 < py_or (Some 50) 100"
    by (simp add: py_or_def)
  have h3: "(\<lambda>sf st. ([3, 10, 20, 30], [''N'', ''+'', ''V'', [CHR 0x22]])) (py_or (Some 2) 0) (Some 50)
              = ([3, 10, 20, 30 :: int], [''N'', ''+'', ''V'', [CHR 0x22]])"
    by simp
  have l: "lower ''Beat'' = ''beat''"
    by (simp add: lower_def lower_char_def)
  from C6_load_beat_ann [where keep_original = False, OF h1 h2 h3]
  obtain bs where "load_beat_ann 100 (\<lambda>sf st. ([3, 10, 20, 30], [''N'', ''+'', ''V'', [CHR 0x22]]))
         (Some 2) (Some 50) ''Beat'' False = Inr (Beats bs)"
    unfolding l by auto
  moreover have "load_beat_ann 100 (\<lambda>sf st. ([3, 10, 20, 30], [''N'', ''+'', ''V'', [CHR 0x22]]))
         (Some 2) (Some 50) ''Beat'' False
       = Inr (Beats [\<lparr>index = 1, symbol = ''N''\<rparr>, \<lparr>index = 18, symbol = ''V''\<rparr>])"
    by (simp add: load_beat_ann_def l py_or_def beat_types_def beat_step_def)
  ultimately show ?thesis using h1 h2 by simp
qed

section \<open>Results about the scan of the rhythm annotations\<close>

lemma rhythm_keys_eq:
  "rhythm_keys = [''N'', ''AB'', ''AFIB'', ''B'', ''IVR'', ''SBR'', ''SVTA'', ''T'', ''VT'', ''NOISE'']"
  by (simp add: rhythm_keys_def rhythm_types_map_def rhythm_types_def strip_paren_def enumerate_eq_zip upt_rec)

lemma distinct_rhythm_keys: "distinct rhythm_keys"
  by (simp add: rhythm_keys_eq)

lemma strip_in_keys: "r \<in> set rhythm_types \<Longrightarrow> strip_paren r \<in> set rhythm_keys"
  by (auto simp: rhythm_keys_eq rhythm_types_def strip_paren_def)

lemma noise_in_keys: "''NOISE'' \<in> set rhythm_keys"
  by (simp add: rhythm_keys_eq)

lemma dict_append_group:
  "distinct ks \<Longrightarrow> dict_append k v (group_by ks seq) = group_by ks (seq @ [(k, v)])"
  unfolding group_by_def
  by (simp add: dict_append_map [of ks k v "\<lambda>k'. map snd (filter (\<lambda>e. fst e = k') seq)"])

lemma log_step_skip: "r \<notin> set rhythm_types \<Longrightarrow> log_step st (idx, r) = st"
  by (simp add: log_step_def split: prod.splits)

lemma log_step_take:
  "r \<in> set rhythm_types \<Longrightarrow>
   log_step (seq, start, cur) (idx, r) = (seq @ [(cur, (start, idx))], idx, strip_paren r)"
  by (simp add: log_step_def)

lemma scan_step_skip: "r \<notin> set rhythm_types \<Longrightarrow> scan_step st (idx, r) = st"
  by (simp add: scan_step_def split: prod.splits)

lemma scan_step_take:
  "r \<in> set rhythm_types \<Longrightarrow>
   scan_step (ann, start, cur) (idx, r) = (dict_append cur (start, idx) ann, idx, strip_paren r)"
  by (simp add: scan_step_def)

lemma foldl_scan_step:
  "distinct ks \<Longrightarrow>
   foldl scan_step (group_by ks seq, start, cur) zs
     = (case foldl log_step (seq, start, cur) zs of
          (seq', start', cur') \<Rightarrow> (group_by ks seq', start', cur'))"
proof (induction zs arbitrary: seq start cur)
  case Nil
  show ?case by simp
next
  case (Cons z zs)
  obtain idx r where z: "z = (idx, r)" by (cases z)
  show ?case
  proof (cases "r \<in> set rhythm_types")
    case False
    then show ?thesis using Cons z by (simp add: scan_step_skip log_step_skip)
  next
    case True
    then show ?thesis
      using Cons.IH [OF Cons.prems, of "seq @ [(cur, (start, idx))]" idx "strip_paren r"] z Cons.prems
      by (simp add: scan_step_take log_step_take dict_append_group)
  qed
qed

lemma chain_le: "chain s xs e \<Longrightarrow> s \<le> e"
proof (induction xs arbitrary: s)
  case Nil
  then show ?case by simp
next
  case (Cons x xs)
  then have "s \<le> snd (snd x)" and "snd (snd x) \<le> e" by auto
  then show ?case by simp
qed

lemma chain_append: "chain s xs e \<Longrightarrow> e \<le> e' \<Longrightarrow> chain s (xs @ [(k, (e, e'))]) e'"
  by (induction xs arbitrary: s) auto

lemma chain_count:
  "chain s xs e \<Longrightarrow>
   length (filter (\<lambda>x. fst (snd x) \<le> p \<and> p < snd (snd x)) xs) = (if s \<le> p \<and> p < e then 1 else 0)"
proof (induction xs arbitrary: s)
  case Nil
  then show ?case by auto
next
  case (Cons x xs)
  then have c: "chain (snd (snd x)) xs e" and a: "fst (snd x) = s" and le: "s \<le> snd (snd x)"
    by auto
  from chain_le [OF c] have "snd (snd x) \<le> e" .
  with Cons.IH [OF c] a le show ?case by auto
qed

lemma chain_consecutive:
  "chain s xs e \<Longrightarrow> Suc i < length xs \<Longrightarrow> fst (snd (xs ! Suc i)) = snd (snd (xs ! i))"
proof (induction xs arbitrary: s i)
  case Nil
  then show ?case by simp
next
  case (Cons x xs)
  then have c: "chain (snd (snd x)) xs e" by simp
  show ?case
  proof (cases i)
    case 0
    with Cons.prems c show ?thesis by (cases xs) auto
  next
    case (Suc j)
    with Cons.prems Cons.IH [OF c, of j] show ?thesis by simp
  qed
qed

lemma chain_hd: "chain s xs e \<Longrightarrow> xs \<noteq> [] \<Longrightarrow> fst (snd (hd xs)) = s"
  by (cases xs) auto

lemma chain_last: "chain s xs e \<Longrightarrow> xs \<noteq> [] \<Longrightarrow> snd (snd (last xs)) = e"
  by (induction xs arbitrary: s) auto

lemma foldl_log_step:
  assumes "foldl log_step (seq, start, cur) zs = (seq', start', cur')"
    and "chain s0 seq start"
    and "sorted (map fst zs)"
    and "\<forall>p \<in> set (map fst zs). start \<le> p"
    and "cur \<in> set rhythm_keys"
    and "set (map fst seq) \<subseteq> set rhythm_keys"
  shows "chain s0 seq' start' \<and> (start' = start \<or> start' \<in> set (map fst zs))
         \<and> cur' \<in> set rhythm_keys \<and> set (map fst seq') \<subseteq> set rhythm_keys"
  using assms
proof (induction zs arbitrary: seq start cur)
  case Nil
  then show ?case by simp
next
  case (Cons z zs)
  obtain idx r where z: "z = (idx, r)" by (cases z)
  show ?case
  proof (cases "r \<in> set rhythm_types")
    case False
    then have "foldl log_step (seq, start, cur) zs = (seq', start', cur')"
      using Cons.prems(1) z by (simp add: log_step_skip)
    from Cons.IH [OF this Cons.prems(2)] Cons.prems show ?thesis by auto
  next
    case True
    then have f: "foldl log_step (seq @ [(cur, (start, idx))], idx, strip_paren r) zs = (seq', start', cur')"
      using Cons.prems(1) z by (simp add: log_step_take)
    have le: "start \<le> idx" using Cons.prems(4) z by simp
    have c: "chain s0 (seq @ [(cur, (start, idx))]) idx"
      using chain_append [OF Cons.prems(2) le] .
    have s: "sorted (map fst zs)" using Cons.prems(3) by simp
    have b: "\<forall>p \<in> set (map fst zs). idx \<le> p" using Cons.prems(3) z by auto
    have k: "strip_paren r \<in> set rhythm_keys" using True by (rule strip_in_keys)
    have l: "set (map fst (seq @ [(cur, (start, idx))])) \<subseteq> set rhythm_keys"
      using Cons.prems(5,6) by auto
    from Cons.IH [OF f c s b k l] z show ?thesis by auto
  qed
qed

lemma sum_list_indicator:
  "distinct ks \<Longrightarrow> a \<in> set ks \<Longrightarrow> sum_list (map (\<lambda>k. if a = k then (c::nat) else 0) ks) = c"
  by (induction ks) auto

lemma group_by_count:
  assumes "distinct ks" and "set (map fst seq) \<subseteq> set ks"
  shows "sum_list (map (\<lambda>kl. length (filter P (snd kl))) (group_by ks seq))
           = length (filter (\<lambda>e. P (snd e)) seq)"
  using assms(2)
proof (induction seq)
  case Nil
  show ?case by (simp add: group_by_def comp_def)
next
  case (Cons e seq)
  then have mem: "fst e \<in> set ks" and sub: "set (map fst seq) \<subseteq> set ks" by auto
  have pt: "\<And>k. length (filter P (map snd (filter (\<lambda>e'. fst e' = k) (e # seq))))
                 = (if fst e = k then (if P (snd e) then 1 else 0) else 0)
                   + length (filter P (map snd (filter (\<lambda>e. fst e = k) seq)))"
    by simp
  have "sum_list (map (\<lambda>kl. length (filter P (snd kl))) (group_by ks (e # seq)))
          = sum_list (map (\<lambda>k. length (filter P (map snd (filter (\<lambda>e'. fst e' = k) (e # seq))))) ks)"
    by (simp add: group_by_def comp_def)
  also have "\<dots> = sum_list (map (\<lambda>k. (if fst e = k then (if P (snd e) then 1 else 0) else 0)
                                 + length (filter P (map snd (filter (\<lambda>e. fst e = k) seq)))) ks)"
    by (simp only: pt)
  also have "\<dots> = sum_list (map (\<lambda>k. if fst e = k then (if P (snd e) then 1 else 0) else 0) ks)
                   + sum_list (map (\<lambda>kl. length (filter P (snd kl))) (group_by ks seq))"
    by (simp add: sum_list_addf group_by_def comp_def)
  also have "\<dots> = (if P (snd e) then 1 else 0) + length (filter (\<lambda>e. P (snd e)) seq)"
    using sum_list_indicator [OF assms(1) mem] Cons.IH [OF sub] by simp
  finally show ?case by simp
qed


lemma sorted_le_last: "sorted xs \<Longrightarrow> x \<in> set xs \<Longrightarrow> x \<le> last (xs :: int list)"
  by (induction xs) auto

lemma sorted_zip_fst: "sorted xs \<Longrightarrow> sorted (map fst (zip xs ys))"
proof (induction xs arbitrary: ys)
  case Nil
  show ?case by simp
next
  case (Cons x xs)
  show ?case
  proof (cases ys)
    case Nil
    then show ?thesis by simp
  next
    case (Cons y ys')
    have "set (map fst (zip xs ys')) \<subseteq> set xs" by (auto dest: set_zip_leftD)
    with Cons.prems Cons.IH [of ys'] Cons show ?thesis by auto
  qed
qed

text \<open>
  C8. For an annotation file with at least one sample, whose samples are in time order
  and not negative (as the samples of a WFDB annotation file are), the scan returns, and
  the intervals it built are the entries of \<open>seq\<close> in the order of their creation,
  each under its label in the dict. The first starts at 0, each later one starts where
  the one before it ends, and the last one is the "NOISE" interval that ends at
  \<open>sig_len\<close>. Read as half-open intervals, no sample lies in two of them, and every
  sample of \<open>[0, sig_len)\<close> lies in exactly one, counted in the log and counted in
  the dict.
\<close>

theorem C8_scan_tiles_record:
  assumes ne: "critical_points \<noteq> []"
    and srt: "sorted critical_points"
    and nonneg: "\<forall>p \<in> set critical_points. 0 \<le> p"
  shows "\<exists>ann seq.
           full_record_scan sig_len critical_points aux_note = Inr ann
         \<and> ann = map (\<lambda>k. (k, map snd (filter (\<lambda>e. fst e = k) seq))) (map fst rhythm_types_map)
         \<and> set (map fst seq) \<subseteq> set (map fst rhythm_types_map)
         \<and> seq \<noteq> [] \<and> fst (snd (hd seq)) = 0
         \<and> (\<forall>i. Suc i < length seq \<longrightarrow> fst (snd (seq ! Suc i)) = snd (snd (seq ! i)))
         \<and> last seq = (''NOISE'', (last critical_points, sig_len))
         \<and> (\<forall>x. length (filter (\<lambda>e. fst (snd e) \<le> x \<and> x < snd (snd e)) seq) \<le> 1)
         \<and> (\<forall>x. 0 \<le> x \<and> x < sig_len \<longrightarrow>
                length (filter (\<lambda>e. fst (snd e) \<le> x \<and> x < snd (snd e)) seq) = 1
              \<and> sum_list (map (\<lambda>kl. length (filter (\<lambda>itv. fst itv \<le> x \<and> x < snd itv) (snd kl))) ann) = 1)"
proof -
  let ?zs = "zip critical_points aux_note"
  let ?lst = "last critical_points"
  obtain seq' start' cur' where f: "foldl log_step ([], 0, ''NOISE'') ?zs = (seq', start', cur')"
    by (cases "foldl log_step ([], 0, ''NOISE'') ?zs") auto
  have sub: "set (map fst ?zs) \<subseteq> set critical_points"
    by (auto dest: set_zip_leftD)
  have inv: "chain 0 seq' start' \<and> (start' = 0 \<or> start' \<in> set (map fst ?zs))
             \<and> cur' \<in> set rhythm_keys \<and> set (map fst seq') \<subseteq> set rhythm_keys"
  proof (rule foldl_log_step [OF f])
    show "chain 0 [] 0" by simp
    show "sorted (map fst ?zs)" using srt by (rule sorted_zip_fst)
    show "\<forall>p \<in> set (map fst ?zs). 0 \<le> p" using sub nonneg by blast
    show "''NOISE'' \<in> set rhythm_keys" by (rule noise_in_keys)
    show "set (map fst []) \<subseteq> set rhythm_keys" by simp
  qed
  have lst_mem: "?lst \<in> set critical_points" using ne by simp
  have start_le: "start' \<le> ?lst"
  proof (cases "start' = 0")
    case True
    then show ?thesis using nonneg lst_mem by simp
  next
    case False
    then have "start' \<in> set critical_points" using inv sub by blast
    then show ?thesis using srt by (rule sorted_le_last [rotated])
  qed
  let ?T = "seq' @ [(cur', (start', ?lst))]"
  let ?S = "?T @ [(''NOISE'', (?lst, sig_len))]"
  have chT: "chain 0 ?T ?lst"
    using inv start_le by (simp add: chain_append)
  have scan: "foldl scan_step (group_by rhythm_keys [], 0, ''NOISE'') ?zs
                = (group_by rhythm_keys seq', start', cur')"
    using foldl_scan_step [OF distinct_rhythm_keys, of "[]" 0 "''NOISE''" ?zs] f by simp
  have g0: "group_by rhythm_keys [] = map (\<lambda>k. (k, [])) (map fst rhythm_types_map)"
    by (simp add: group_by_def rhythm_keys_def comp_def)
  have res: "full_record_scan sig_len critical_points aux_note = Inr (group_by rhythm_keys ?S)"
    using scan ne unfolding g0
    by (simp add: full_record_scan_def dict_append_group [OF distinct_rhythm_keys])
  have ann_eq: "group_by rhythm_keys ?S
                  = map (\<lambda>k. (k, map snd (filter (\<lambda>e. fst e = k) ?S))) (map fst rhythm_types_map)"
    by (simp only: group_by_def rhythm_keys_def)
  have labels: "set (map fst ?S) \<subseteq> set rhythm_keys"
    using inv noise_in_keys by auto
  have neT: "?T \<noteq> []" by simp
  have "hd ?S = hd ?T" using neT by (rule hd_append2)
  then have hd0: "fst (snd (hd ?S)) = 0"
    using chain_hd [OF chT neT] by simp
  have consec: "\<forall>i. Suc i < length ?S \<longrightarrow> fst (snd (?S ! Suc i)) = snd (snd (?S ! i))"
  proof (intro allI impI)
    fix i
    assume i: "Suc i < length ?S"
    show "fst (snd (?S ! Suc i)) = snd (snd (?S ! i))"
    proof (cases "Suc i < length ?T")
      case True
      then have "?S ! Suc i = ?T ! Suc i" and "?S ! i = ?T ! i"
        by (simp_all add: nth_append del: append_assoc)
      then show ?thesis using chain_consecutive [OF chT True] by simp
    next
      case False
      with i have e: "Suc i = length ?T" by simp
      then have a: "?S ! Suc i = (''NOISE'', (?lst, sig_len))"
        by (metis nth_append_length)
      have "i < length ?T" using e by simp
      then have "?S ! i = ?T ! i" by (simp add: nth_append del: append_assoc)
      also have "?T ! i = last ?T" using e by (metis diff_Suc_1 last_conv_nth snoc_eq_iff_butlast)
      finally have "snd (snd (?S ! i)) = ?lst" using chain_last [OF chT] by simp
      with a show ?thesis by simp
    qed
  qed
  have cnt: "\<And>x. length (filter (\<lambda>e. fst (snd e) \<le> x \<and> x < snd (snd e)) ?S)
              = (if 0 \<le> x \<and> x < ?lst then 1 else 0) + (if ?lst \<le> x \<and> x < sig_len then 1 else 0)"
  proof -
    fix x
    have "length (filter (\<lambda>e. fst (snd e) \<le> x \<and> x < snd (snd e)) ?S)
            = length (filter (\<lambda>e. fst (snd e) \<le> x \<and> x < snd (snd e)) ?T)
              + (if ?lst \<le> x \<and> x < sig_len then 1 else 0)"
      by (simp del: append_assoc)
    then show "length (filter (\<lambda>e. fst (snd e) \<le> x \<and> x < snd (snd e)) ?S)
              = (if 0 \<le> x \<and> x < ?lst then 1 else 0) + (if ?lst \<le> x \<and> x < sig_len then 1 else 0)"
      using chain_count [OF chT, of x] by simp
  qed
  have atmost: "\<forall>x. length (filter (\<lambda>e. fst (snd e) \<le> x \<and> x < snd (snd e)) ?S) \<le> 1"
    unfolding cnt by auto
  have exact: "\<forall>x. 0 \<le> x \<and> x < sig_len \<longrightarrow>
                 length (filter (\<lambda>e. fst (snd e) \<le> x \<and> x < snd (snd e)) ?S) = 1"
    unfolding cnt by auto
  have sums: "\<And>x. sum_list (map (\<lambda>kl. length (filter (\<lambda>itv. fst itv \<le> x \<and> x < snd itv) (snd kl)))
                               (group_by rhythm_keys ?S))
               = length (filter (\<lambda>e. fst (snd e) \<le> x \<and> x < snd (snd e)) ?S)"
    using group_by_count [OF distinct_rhythm_keys labels, of "\<lambda>itv. fst itv \<le> _ \<and> _ < snd itv"]
    by simp
  have labels': "set (map fst ?S) \<subseteq> set (map fst rhythm_types_map)"
    using labels by (simp only: rhythm_keys_def)
  have lastS: "last ?S = (''NOISE'', (?lst, sig_len))" by simp
  have neS: "?S \<noteq> []" by simp
  have final: "\<forall>x. 0 \<le> x \<and> x < sig_len \<longrightarrow>
                 length (filter (\<lambda>e. fst (snd e) \<le> x \<and> x < snd (snd e)) ?S) = 1
               \<and> sum_list (map (\<lambda>kl. length (filter (\<lambda>itv. fst itv \<le> x \<and> x < snd itv) (snd kl)))
                            (group_by rhythm_keys ?S)) = 1"
    using exact sums by simp
  show ?thesis
  proof (intro exI conjI)
    show "full_record_scan sig_len critical_points aux_note = Inr (group_by rhythm_keys ?S)"
      by (rule res)
    show "group_by rhythm_keys ?S
            = map (\<lambda>k. (k, map snd (filter (\<lambda>e. fst e = k) ?S))) (map fst rhythm_types_map)"
      by (rule ann_eq)
    show "set (map fst ?S) \<subseteq> set (map fst rhythm_types_map)" by (rule labels')
    show "?S \<noteq> []" by (rule neS)
    show "fst (snd (hd ?S)) = 0" by (rule hd0)
    show "\<forall>i. Suc i < length ?S \<longrightarrow> fst (snd (?S ! Suc i)) = snd (snd (?S ! i))"
      by (rule consec)
    show "last ?S = (''NOISE'', (?lst, sig_len))" by (rule lastS)
    show "\<forall>x. length (filter (\<lambda>e. fst (snd e) \<le> x \<and> x < snd (snd e)) ?S) \<le> 1"
      by (rule atmost)
    show "\<forall>x. 0 \<le> x \<and> x < sig_len \<longrightarrow>
                 length (filter (\<lambda>e. fst (snd e) \<le> x \<and> x < snd (snd e)) ?S) = 1
               \<and> sum_list (map (\<lambda>kl. length (filter (\<lambda>itv. fst itv \<le> x \<and> x < snd itv) (snd kl)))
                            (group_by rhythm_keys ?S)) = 1"
      by (rule final)
  qed
qed

theorem C8_scan_tiles_record_witness:
  "[10, 20, 30 :: int] \<noteq> [] \<and> sorted [10, 20, 30 :: int] \<and> list_all (\<lambda>p. 0 \<le> p) [10, 20, 30 :: int]
   \<and> (\<exists>ann. full_record_scan 40 [10, 20, 30] [''(AFIB'', '''', ''(N''] = Inr ann
          \<and> sum_list (map (\<lambda>kl. length (filter (\<lambda>itv. fst itv \<le> 25 \<and> 25 < snd itv) (snd kl))) ann) = 1)"
proof -
  have h1: "[10, 20, 30 :: int] \<noteq> []" by simp
  have h2: "sorted [10, 20, 30 :: int]" by simp
  have h3: "\<forall>p \<in> set [10, 20, 30 :: int]. 0 \<le> p" by simp
  from C8_scan_tiles_record [OF h1 h2 h3, of 40 "[''(AFIB'', '''', ''(N'']"]
  obtain ann where "full_record_scan 40 [10, 20, 30] [''(AFIB'', '''', ''(N''] = Inr ann"
    and "\<forall>x. 0 \<le> x \<and> x < 40 \<longrightarrow>
           sum_list (map (\<lambda>kl. length (filter (\<lambda>itv. fst itv \<le> x \<and> x < snd itv) (snd kl))) ann) = 1"
    by blast
  then show ?thesis using h1 h2 h3 by force
qed

section \<open>Results about the rhythm annotations\<close>

lemma read_or_scan_dir:
  "fst (read_or_scan db_dir rec sig_len wfdb_ann)
     = (if db_dir (rec @ ''_ann.json'') \<noteq> None then db_dir
        else case full_record_scan sig_len (fst wfdb_ann) (snd wfdb_ann) of
               Inl e \<Rightarrow> db_dir
             | Inr ann \<Rightarrow> db_dir(rec @ ''_ann.json'' \<mapsto> JsonAnn ann))"
  by (simp add: read_or_scan_def Let_def split: option.splits file_content.splits sum.splits)

lemma read_or_scan_again:
  assumes "fst (read_or_scan db_dir rec sig_len wfdb_ann) (rec @ ''_ann.json'') \<noteq> None"
  shows "read_or_scan (fst (read_or_scan db_dir rec sig_len wfdb_ann)) rec sig_len wfdb_ann'
           = read_or_scan db_dir rec sig_len wfdb_ann"
  using assms
  by (auto simp add: read_or_scan_def Let_def split: option.splits file_content.splits sum.splits)

lemma load_rhythm_ann_dir:
  "fst (load_rhythm_ann gii db_dir rec sig_len wfdb_ann sampfrom sampto rhythm_format keep_original)
     = (if lower rhythm_format \<notin> set [''interval'', ''mask'']
           \<or> \<not> py_or sampfrom 0 < py_or sampto sig_len then db_dir
        else fst (read_or_scan db_dir rec sig_len wfdb_ann))"
  by (simp add: load_rhythm_ann_def Let_def split: prod.splits sum.splits)

text \<open>
  C5. The claim: \<open>load_rhythm_ann\<close> performs no caching, leaves the database directory
  unchanged and computes the annotations from the \<open>.atr\<close> file alone. On an empty
  directory the call for record "100" leaves a directory that is not empty; and on a
  directory that holds \<open>100_ann.json\<close> the call returns what that file says, which is
  not what the scan of the \<open>.atr\<close> annotation gives.
\<close>

theorem C5_directory_changed_counterexample:
  "fst (load_rhythm_ann (\<lambda>l w. l) Map.empty ''100'' 40 ([10, 20, 30], [''(AFIB'', '''', ''(N''])
          None None ''interval'' True) \<noteq> Map.empty
   \<and> snd (load_rhythm_ann (\<lambda>l w. l) [''100_ann.json'' \<mapsto> JsonAnn [(''N'', [(0, 40)])]] ''100'' 40
             ([10, 20, 30], [''(AFIB'', '''', ''(N'']) None None ''interval'' True)
       = Inr (Intervals [(''N'', [(0, 40)])])
   \<and> full_record_scan 40 [10, 20, 30] [''(AFIB'', '''', ''(N'']
       \<noteq> Inr [(''N'', [(0, 40)])]"
proof -
  have scan: "full_record_scan 40 [10, 20, 30] [''(AFIB'', '''', ''(N'']
     = Inr [(''N'', [(30, 30)]), (''AB'', []), (''AFIB'', [(10, 30)]), (''B'', []), (''IVR'', []),
            (''SBR'', []), (''SVTA'', []), (''T'', []), (''VT'', []), (''NOISE'', [(0, 10), (30, 40)])]"
    by (simp add: full_record_scan_def scan_step_def rhythm_types_map_def rhythm_types_def
        strip_paren_def enumerate_eq_zip upt_rec)
  have l: "lower ''interval'' = ''interval''"
    by (simp add: lower_def lower_char_def)
  have "fst (load_rhythm_ann (\<lambda>l w. l) Map.empty ''100'' 40 ([10, 20, 30], [''(AFIB'', '''', ''(N''])
          None None ''interval'' True) ''100_ann.json'' \<noteq> None"
    by (simp add: load_rhythm_ann_def read_or_scan_def Let_def l py_or_def scan)
  then have a: "fst (load_rhythm_ann (\<lambda>l w. l) Map.empty ''100'' 40 ([10, 20, 30], [''(AFIB'', '''', ''(N''])
          None None ''interval'' True) \<noteq> Map.empty"
    by (metis)
  have b: "snd (load_rhythm_ann (\<lambda>l w. l) [''100_ann.json'' \<mapsto> JsonAnn [(''N'', [(0, 40)])]] ''100'' 40
             ([10, 20, 30], [''(AFIB'', '''', ''(N'']) None None ''interval'' True)
       = Inr (Intervals [(''N'', [(0, 40)])])"
    by (simp add: load_rhythm_ann_def read_or_scan_def Let_def l py_or_def window_rhythm_ann_def)
  show ?thesis using a b scan by simp
qed

text \<open>
  C5, as amended. \<open>load_rhythm_ann\<close> caches the scan of the record in
  \<open>{rec}_ann.json\<close>. The directory after a call is the directory before it, except
  that a call with a valid format and window on a directory without that file, whose scan
  succeeds, adds that one file holding the scanned intervals. Once the file exists, a
  repeated call returns what the first call returned and leaves the directory as it is,
  whatever the \<open>.atr\<close> annotation holds then.
\<close>

theorem C5_load_rhythm_ann_caches:
  "fst (load_rhythm_ann gii db_dir rec sig_len wfdb_ann sampfrom sampto rhythm_format keep_original)
     = (if db_dir (rec @ ''_ann.json'') \<noteq> None
           \<or> lower rhythm_format \<notin> set [''interval'', ''mask'']
           \<or> \<not> py_or sampfrom 0 < py_or sampto sig_len
        then db_dir
        else case full_record_scan sig_len (fst wfdb_ann) (snd wfdb_ann) of
               Inl e \<Rightarrow> db_dir
             | Inr ann \<Rightarrow> db_dir(rec @ ''_ann.json'' \<mapsto> JsonAnn ann))
   \<and> (fst (load_rhythm_ann gii db_dir rec sig_len wfdb_ann sampfrom sampto rhythm_format keep_original)
          (rec @ ''_ann.json'') \<noteq> None
        \<longrightarrow> load_rhythm_ann gii
              (fst (load_rhythm_ann gii db_dir rec sig_len wfdb_ann sampfrom sampto rhythm_format
                      keep_original))
              rec sig_len wfdb_ann' sampfrom sampto rhythm_format keep_original
            = load_rhythm_ann gii db_dir rec sig_len wfdb_ann sampfrom sampto rhythm_format
                keep_original)"
proof (intro conjI impI)
  show "fst (load_rhythm_ann gii db_dir rec sig_len wfdb_ann sampfrom sampto rhythm_format keep_original)
     = (if db_dir (rec @ ''_ann.json'') \<noteq> None
           \<or> lower rhythm_format \<notin> set [''interval'', ''mask'']
           \<or> \<not> py_or sampfrom 0 < py_or sampto sig_len
        then db_dir
        else case full_record_scan sig_len (fst wfdb_ann) (snd wfdb_ann) of
               Inl e \<Rightarrow> db_dir
             | Inr ann \<Rightarrow> db_dir(rec @ ''_ann.json'' \<mapsto> JsonAnn ann))"
    unfolding load_rhythm_ann_dir read_or_scan_dir by simp
next
  let ?call = "load_rhythm_ann gii db_dir rec sig_len wfdb_ann sampfrom sampto rhythm_format keep_original"
  assume cached: "fst ?call (rec @ ''_ann.json'') \<noteq> None"
  show "load_rhythm_ann gii (fst ?call) rec sig_len wfdb_ann' sampfrom sampto rhythm_format keep_original
          = ?call"
  proof (cases "lower rhythm_format \<notin> set [''interval'', ''mask'']
                  \<or> \<not> py_or sampfrom 0 < py_or sampto sig_len")
    case True
    then have "fst ?call = db_dir" unfolding load_rhythm_ann_dir by simp
    with True show ?thesis by (auto simp add: load_rhythm_ann_def Let_def)
  next
    case False
    then have d: "fst ?call = fst (read_or_scan db_dir rec sig_len wfdb_ann)"
      unfolding load_rhythm_ann_dir by simp
    with cached have "read_or_scan (fst ?call) rec sig_len wfdb_ann' = read_or_scan db_dir rec sig_len wfdb_ann"
      using read_or_scan_again [of db_dir rec sig_len wfdb_ann wfdb_ann'] by simp
    with False show ?thesis
      by (simp add: load_rhythm_ann_def Let_def)
  qed
qed

theorem C5_load_rhythm_ann_caches_witness:
  "fst (load_rhythm_ann (\<lambda>l w. l) Map.empty ''100'' 40 ([10, 20, 30], [''(AFIB'', '''', ''(N''])
          None None ''interval'' True) ''100_ann.json''
     = Some (JsonAnn [(''N'', [(30, 30)]), (''AB'', []), (''AFIB'', [(10, 30)]), (''B'', []),
                      (''IVR'', []), (''SBR'', []), (''SVTA'', []), (''T'', []), (''VT'', []),
                      (''NOISE'', [(0, 10), (30, 40)])])
   \<and> load_rhythm_ann (\<lambda>l w. l)
         (fst (load_rhythm_ann (\<lambda>l w. l) Map.empty ''100'' 40
                 ([10, 20, 30], [''(AFIB'', '''', ''(N'']) None None ''interval'' True))
         ''100'' 40 ([5], [''(VT'']) None None ''interval'' True
       = load_rhythm_ann (\<lambda>l w. l) Map.empty ''100'' 40 ([10, 20, 30], [''(AFIB'', '''', ''(N''])
           None None ''interval'' True"
proof -
  have scan: "full_record_scan 40 [10, 20, 30] [''(AFIB'', '''', ''(N'']
     = Inr [(''N'', [(30, 30)]), (''AB'', []), (''AFIB'', [(10, 30)]), (''B'', []), (''IVR'', []),
            (''SBR'', []), (''SVTA'', []), (''T'', []), (''VT'', []), (''NOISE'', [(0, 10), (30, 40)])]"
    by (simp add: full_record_scan_def scan_step_def rhythm_types_map_def rhythm_types_def
        strip_paren_def enumerate_eq_zip upt_rec)
  have l: "lower ''interval'' = ''interval''"
    by (simp add: lower_def lower_char_def)
  have a: "fst (load_rhythm_ann (\<lambda>l w. l) Map.empty ''100'' 40 ([10, 20, 30], [''(AFIB'', '''', ''(N''])
          None None ''interval'' True) ''100_ann.json''
     = Some (JsonAnn [(''N'', [(30, 30)]), (''AB'', []), (''AFIB'', [(10, 30)]), (''B'', []),
                      (''IVR'', []), (''SBR'', []), (''SVTA'', []), (''T'', []), (''VT'', []),
                      (''NOISE'', [(0, 10), (30, 40)])])"
    by (simp add: load_rhythm_ann_def read_or_scan_def Let_def l py_or_def scan)
  then have h: "fst (load_rhythm_ann (\<lambda>l w. l) Map.empty ''100'' 40
                      ([10, 20, 30], [''(AFIB'', '''', ''(N'']) None None ''interval'' True)
                  (''100'' @ ''_ann.json'') \<noteq> None"
    by simp
  from C5_load_rhythm_ann_caches [THEN conjunct2, rule_format, OF h, of "([5], [''(VT''])"] a
  show ?thesis by simp
qed

lemma length_slice_assign: "length (slice_assign arr a b v) = length arr"
  by (simp add: slice_assign_def Let_def)

lemma nth_slice_assign:
  assumes "0 \<le> a" and "a \<le> b" and "b \<le> int (length arr)" and "i < length arr"
  shows "slice_assign arr a b v ! i = (if a \<le> int i \<and> int i < b then v else arr ! i)"
proof -
  have "slice_index (int (length arr)) a = a" and "slice_index (int (length arr)) b = b"
    using assms by (simp_all add: slice_index_def)
  then show ?thesis
    using assms(4) by (simp add: slice_assign_def Let_def nth_enumerate_eq)
qed

lemma foldl_slice_assign:
  assumes "\<forall>itv \<in> set l. sf \<le> fst itv \<and> fst itv \<le> snd itv \<and> snd itv \<le> sf + int (length arr)"
  shows "length (foldl (\<lambda>m itv. slice_assign m (fst itv - sf) (snd itv - sf) code) arr l) = length arr
       \<and> (\<forall>i < length arr.
             foldl (\<lambda>m itv. slice_assign m (fst itv - sf) (snd itv - sf) code) arr l ! i
               = (if \<exists>itv \<in> set l. covers itv (sf + int i) then code else arr ! i))"
  using assms
proof (induction l arbitrary: arr)
  case Nil
  show ?case by simp
next
  case (Cons itv l)
  let ?arr' = "slice_assign arr (fst itv - sf) (snd itv - sf) code"
  have len: "length ?arr' = length arr" by (rule length_slice_assign)
  have b: "0 \<le> fst itv - sf" "fst itv - sf \<le> snd itv - sf" "snd itv - sf \<le> int (length arr)"
    using Cons.prems by auto
  have "\<forall>itv \<in> set l. sf \<le> fst itv \<and> fst itv \<le> snd itv \<and> snd itv \<le> sf + int (length ?arr')"
    using Cons.prems len by simp
  from Cons.IH [OF this]
  have ih: "length (foldl (\<lambda>m itv. slice_assign m (fst itv - sf) (snd itv - sf) code) ?arr' l) = length arr"
    "\<forall>i < length arr.
             foldl (\<lambda>m itv. slice_assign m (fst itv - sf) (snd itv - sf) code) ?arr' l ! i
               = (if \<exists>itv \<in> set l. covers itv (sf + int i) then code else ?arr' ! i)"
    using len by simp_all
  have "\<forall>i < length arr. ?arr' ! i = (if covers itv (sf + int i) then code else arr ! i)"
    using nth_slice_assign [OF b] by (auto simp: covers_def)
  with ih show ?case by auto
qed

lemma fill_mask_spec:
  assumes "set (map fst A) \<subseteq> set (map fst rhythm_types_map)"
    and "\<forall>kl \<in> set A. \<forall>itv \<in> set (snd kl).
           sf \<le> fst itv \<and> fst itv \<le> snd itv \<and> snd itv \<le> sf + int (length arr)"
  shows "\<exists>m. fill_mask sf A arr = Inr m \<and> length m = length arr
           \<and> (\<forall>i < length arr.
                 if \<exists>kl \<in> set A. \<exists>itv \<in> set (snd kl). covers itv (sf + int i)
                 then \<exists>kl \<in> set A. (\<exists>itv \<in> set (snd kl). covers itv (sf + int i))
                                   \<and> map_of rhythm_types_map (fst kl) = Some (m ! i)
                 else m ! i = arr ! i)"
  using assms
proof (induction A arbitrary: arr)
  case Nil
  show ?case by simp
next
  case (Cons kl A)
  obtain k l where kl: "kl = (k, l)" by (cases kl)
  have keys: "set (map fst A) \<subseteq> set (map fst rhythm_types_map)" using Cons.prems(1) by simp
  obtain code where code: "map_of rhythm_types_map k = Some code"
    using Cons.prems(1) kl
    by (metis (no_types, lifting) fst_conv list.set_intros(1) list.simps(9) map_of_eq_None_iff
        not_Some_eq set_map subset_code(1))
  let ?arr' = "foldl (\<lambda>m itv. slice_assign m (fst itv - sf) (snd itv - sf) code) arr l"
  have lb: "\<forall>itv \<in> set l. sf \<le> fst itv \<and> fst itv \<le> snd itv \<and> snd itv \<le> sf + int (length arr)"
    using Cons.prems(2) kl by simp
  from foldl_slice_assign [OF lb, of code]
  have len: "length ?arr' = length arr"
    and val: "\<forall>i < length arr. ?arr' ! i = (if \<exists>itv \<in> set l. covers itv (sf + int i) then code else arr ! i)"
    by simp_all
  have step: "fill_mask sf (kl # A) arr = fill_mask sf A ?arr'"
  proof (cases "l = []")
    case True
    then show ?thesis using kl by simp
  next
    case False
    then show ?thesis using kl code by simp
  qed
  have "\<forall>kl \<in> set A. \<forall>itv \<in> set (snd kl).
           sf \<le> fst itv \<and> fst itv \<le> snd itv \<and> snd itv \<le> sf + int (length ?arr')"
    using Cons.prems(2) len by simp
  from Cons.IH [OF keys this]
  obtain m where m: "fill_mask sf A ?arr' = Inr m" "length m = length arr"
    and ih: "\<forall>i < length arr.
                 if \<exists>kl \<in> set A. \<exists>itv \<in> set (snd kl). covers itv (sf + int i)
                 then \<exists>kl \<in> set A. (\<exists>itv \<in> set (snd kl). covers itv (sf + int i))
                                   \<and> map_of rhythm_types_map (fst kl) = Some (m ! i)
                 else m ! i = ?arr' ! i"
    using len by auto
  have "\<forall>i < length arr.
          if \<exists>kl' \<in> set (kl # A). \<exists>itv \<in> set (snd kl'). covers itv (sf + int i)
          then \<exists>kl' \<in> set (kl # A). (\<exists>itv \<in> set (snd kl'). covers itv (sf + int i))
                                   \<and> map_of rhythm_types_map (fst kl') = Some (m ! i)
          else m ! i = arr ! i"
  proof (intro allI impI)
    fix i
    assume i: "i < length arr"
    show "if \<exists>kl' \<in> set (kl # A). \<exists>itv \<in> set (snd kl'). covers itv (sf + int i)
          then \<exists>kl' \<in> set (kl # A). (\<exists>itv \<in> set (snd kl'). covers itv (sf + int i))
                                   \<and> map_of rhythm_types_map (fst kl') = Some (m ! i)
          else m ! i = arr ! i"
    proof (cases "\<exists>kl \<in> set A. \<exists>itv \<in> set (snd kl). covers itv (sf + int i)")
      case True
      with ih i show ?thesis by auto
    next
      case False
      with ih i have mi: "m ! i = ?arr' ! i" by auto
      show ?thesis
      proof (cases "\<exists>itv \<in> set l. covers itv (sf + int i)")
        case True
        with val i mi have "m ! i = code" by simp
        with True code kl show ?thesis by auto
      next
        case nc: False
        with val i mi have "m ! i = arr ! i" by simp
        with nc False kl show ?thesis by auto
      qed
    qed
  qed
  with step m show ?case by auto
qed

lemma lower_interval: "lower ''interval'' = ''interval''"
  by (simp add: lower_def lower_char_def)

lemma code_N: "map_of rhythm_types_map ''N'' = Some 0"
  by (simp add: rhythm_types_map_def rhythm_types_def strip_paren_def enumerate_eq_zip upt_rec)

lemma filter_at_most_one:
  "length (filter P xs) \<le> 1 \<Longrightarrow> a \<in> set xs \<Longrightarrow> b \<in> set xs \<Longrightarrow> P a \<Longrightarrow> P b \<Longrightarrow> a = b"
proof (induction xs)
  case Nil
  then show ?case by simp
next
  case (Cons x xs)
  show ?case
  proof (cases "P x")
    case True
    with Cons.prems(1) have "filter P xs = []" by simp
    then have none: "\<forall>y \<in> set xs. \<not> P y" by (simp add: filter_empty_conv)
    with Cons.prems have "a = x" and "b = x" by auto
    then show ?thesis by simp
  next
    case False
    with Cons.prems have "length (filter P xs) \<le> 1" "a \<in> set xs" "b \<in> set xs" by auto
    with Cons.IH Cons.prems(4,5) show ?thesis by blast
  qed
qed

lemma scan_log:
  assumes ne: "critical_points \<noteq> []"
    and srt: "sorted critical_points"
    and nonneg: "\<forall>p \<in> set critical_points. 0 \<le> p"
  shows "\<exists>seq. full_record_scan sig_len critical_points aux_note = Inr (group_by rhythm_keys seq)
             \<and> set (map fst seq) \<subseteq> set rhythm_keys
             \<and> (\<forall>x. length (filter (\<lambda>e. covers (snd e) x) seq) \<le> 1)"
proof -
  let ?zs = "zip critical_points aux_note"
  let ?lst = "last critical_points"
  obtain seq' start' cur' where f: "foldl log_step ([], 0, ''NOISE'') ?zs = (seq', start', cur')"
    by (cases "foldl log_step ([], 0, ''NOISE'') ?zs") auto
  have sub: "set (map fst ?zs) \<subseteq> set critical_points"
    by (auto dest: set_zip_leftD)
  have inv: "chain 0 seq' start' \<and> (start' = 0 \<or> start' \<in> set (map fst ?zs))
             \<and> cur' \<in> set rhythm_keys \<and> set (map fst seq') \<subseteq> set rhythm_keys"
  proof (rule foldl_log_step [OF f])
    show "chain 0 [] 0" by simp
    show "sorted (map fst ?zs)" using srt by (rule sorted_zip_fst)
    show "\<forall>p \<in> set (map fst ?zs). 0 \<le> p" using sub nonneg by blast
    show "''NOISE'' \<in> set rhythm_keys" by (rule noise_in_keys)
    show "set (map fst []) \<subseteq> set rhythm_keys" by simp
  qed
  have lst_mem: "?lst \<in> set critical_points" using ne by simp
  have start_le: "start' \<le> ?lst"
  proof (cases "start' = 0")
    case True
    then show ?thesis using nonneg lst_mem by simp
  next
    case False
    then have "start' \<in> set critical_points" using inv sub by blast
    then show ?thesis using srt by (rule sorted_le_last [rotated])
  qed
  let ?T = "seq' @ [(cur', (start', ?lst))]"
  let ?S = "?T @ [(''NOISE'', (?lst, sig_len))]"
  have chT: "chain 0 ?T ?lst"
    using inv start_le by (simp add: chain_append)
  have scan: "foldl scan_step (group_by rhythm_keys [], 0, ''NOISE'') ?zs
                = (group_by rhythm_keys seq', start', cur')"
    using foldl_scan_step [OF distinct_rhythm_keys, of "[]" 0 "''NOISE''" ?zs] f by simp
  have g0: "group_by rhythm_keys [] = map (\<lambda>k. (k, [])) (map fst rhythm_types_map)"
    by (simp add: group_by_def rhythm_keys_def comp_def)
  have res: "full_record_scan sig_len critical_points aux_note = Inr (group_by rhythm_keys ?S)"
    using scan ne unfolding g0
    by (simp add: full_record_scan_def dict_append_group [OF distinct_rhythm_keys])
  have labels: "set (map fst ?S) \<subseteq> set rhythm_keys"
    using inv noise_in_keys by auto
  have cnt: "\<And>x. length (filter (\<lambda>e. covers (snd e) x) ?S)
              = (if 0 \<le> x \<and> x < ?lst then 1 else 0) + (if ?lst \<le> x \<and> x < sig_len then 1 else 0)"
  proof -
    fix x
    have "length (filter (\<lambda>e. covers (snd e) x) ?S)
            = length (filter (\<lambda>e. fst (snd e) \<le> x \<and> x < snd (snd e)) ?T)
              + (if ?lst \<le> x \<and> x < sig_len then 1 else 0)"
      by (simp add: covers_def del: append_assoc)
    then show "length (filter (\<lambda>e. covers (snd e) x) ?S)
              = (if 0 \<le> x \<and> x < ?lst then 1 else 0) + (if ?lst \<le> x \<and> x < sig_len then 1 else 0)"
      using chain_count [OF chT, of x] by simp
  qed
  have atmost: "\<forall>x. length (filter (\<lambda>e. covers (snd e) x) ?S) \<le> 1"
    unfolding cnt by auto
  show ?thesis
  proof (intro exI conjI)
    show "full_record_scan sig_len critical_points aux_note = Inr (group_by rhythm_keys ?S)"
      by (rule res)
    show "set (map fst ?S) \<subseteq> set rhythm_keys" by (rule labels)
    show "\<forall>x. length (filter (\<lambda>e. covers (snd e) x) ?S) \<le> 1" by (rule atmost)
  qed
qed

lemma group_by_mem:
  "(k, l) \<in> set (group_by ks seq) \<Longrightarrow> itv \<in> set l \<Longrightarrow> (k, itv) \<in> set seq"
  by (auto simp add: group_by_def)

lemma group_by_keys: "map fst (group_by ks seq) = ks"
  by (simp add: group_by_def comp_def)

lemma clip_intervals_sound:
  "\<forall>l w. \<forall>itv \<in> set (clip_intervals l [w]).
     fst w \<le> fst itv \<and> fst itv \<le> snd itv \<and> snd itv \<le> snd w
     \<and> (\<forall>x. covers itv x \<longrightarrow> (\<exists>itv' \<in> set l. covers itv' x))"
proof (intro allI ballI)
  fix l :: "interval list" and w itv :: interval
  assume "itv \<in> set (clip_intervals l [w])"
  then obtain j where j: "j \<in> set l" "itv = (max (fst j) (fst w), min (snd j) (snd w))"
    "fst itv < snd itv"
    by (auto simp add: clip_intervals_def)
  have "\<forall>x. covers itv x \<longrightarrow> covers j x"
    using j(2) by (simp add: covers_def)
  then have "\<forall>x. covers itv x \<longrightarrow> (\<exists>itv' \<in> set l. covers itv' x)"
    using j(1) by blast
  moreover have "fst w \<le> fst itv \<and> fst itv \<le> snd itv \<and> snd itv \<le> snd w"
    using j(2,3) by simp
  ultimately show "fst w \<le> fst itv \<and> fst itv \<le> snd itv \<and> snd itv \<le> snd w
     \<and> (\<forall>x. covers itv x \<longrightarrow> (\<exists>itv' \<in> set l. covers itv' x))"
    by blast
qed

text \<open>
  C2. The record's annotation file has at least one sample, its samples in time order
  and not negative; the file \<open>{rec}_ann.json\<close> is absent or holds what the scan of this
  annotation file writes. \<open>generalized_intervals_intersection\<close> is any function whose
  intervals, for one window, lie in the window and cover only samples that an interval of
  its first argument covers. Then for every window \<open>0 \<le> sampfrom < sampto \<le> sig_len\<close>
  both formats return. \<open>A\<close> is what the "interval" format returns with
  \<open>keep_original=True\<close>, its intervals read as half-open. The "mask" format returns
  an array of length \<open>sampto - sampfrom\<close>; position \<open>i\<close> holds the code of class
  \<open>k\<close> whenever an interval of class \<open>k\<close> in \<open>A\<close> contains the sample
  \<open>sampfrom + i\<close>, and the code of "N" where no interval of \<open>A\<close> does.
\<close>

theorem C2_mask_matches_intervals:
  assumes window: "0 \<le> sf" "sf < st" "st \<le> sig_len"
    and ne: "fst wfdb_ann \<noteq> []"
    and srt: "sorted (fst wfdb_ann)"
    and nonneg: "\<forall>p \<in> set (fst wfdb_ann). 0 \<le> p"
    and cache: "db_dir (rec @ ''_ann.json'') = None
                \<or> (\<exists>ann. full_record_scan sig_len (fst wfdb_ann) (snd wfdb_ann) = Inr ann
                         \<and> db_dir (rec @ ''_ann.json'') = Some (JsonAnn ann))"
    and gii: "\<forall>l w. \<forall>itv \<in> set (gii l [w]).
                fst w \<le> fst itv \<and> fst itv \<le> snd itv \<and> snd itv \<le> snd w
                \<and> (\<forall>x. covers itv x \<longrightarrow> (\<exists>itv' \<in> set l. covers itv' x))"
    and fmt: "lower rhythm_format = ''mask''"
  shows "\<exists>A m.
           snd (load_rhythm_ann gii db_dir rec sig_len wfdb_ann (Some sf) (Some st) ''interval'' True)
             = Inr (Intervals A)
         \<and> snd (load_rhythm_ann gii db_dir rec sig_len wfdb_ann (Some sf) (Some st) rhythm_format
                  keep_original) = Inr (Mask m)
         \<and> int (length m) = st - sf
         \<and> (\<forall>i < length m. \<forall>kl \<in> set A. \<forall>itv \<in> set (snd kl).
               covers itv (sf + int i) \<longrightarrow> map_of rhythm_types_map (fst kl) = Some (m ! i))
         \<and> (\<forall>i < length m.
               (\<forall>kl \<in> set A. \<forall>itv \<in> set (snd kl). \<not> covers itv (sf + int i))
                 \<longrightarrow> map_of rhythm_types_map ''N'' = Some (m ! i))"
proof -
  from scan_log [OF ne srt nonneg, of sig_len "snd wfdb_ann"]
  obtain seq where scan: "full_record_scan sig_len (fst wfdb_ann) (snd wfdb_ann)
                            = Inr (group_by rhythm_keys seq)"
    and labels: "set (map fst seq) \<subseteq> set rhythm_keys"
    and atmost: "\<forall>x. length (filter (\<lambda>e. covers (snd e) x) seq) \<le> 1"
    by blast
  let ?ann0 = "group_by rhythm_keys seq"
  have ros: "snd (read_or_scan db_dir rec sig_len wfdb_ann) = Inr ?ann0"
    using cache scan by (auto simp add: read_or_scan_def Let_def)
  obtain d' where rs: "read_or_scan db_dir rec sig_len wfdb_ann = (d', Inr ?ann0)"
    using ros by (cases "read_or_scan db_dir rec sig_len wfdb_ann") auto
  have py: "py_or (Some sf) 0 = sf" "py_or (Some st) sig_len = st"
    using window by (simp_all add: py_or_def)
  let ?A = "filter (\<lambda>(k, l_itv). length l_itv > 0)
              (map (\<lambda>(k, l_itv). (k, gii l_itv [(sf, st)])) ?ann0)"
  have iv: "snd (load_rhythm_ann gii db_dir rec sig_len wfdb_ann (Some sf) (Some st) ''interval'' True)
              = Inr (Intervals ?A)"
    using window rs
    by (simp add: load_rhythm_ann_def Let_def lower_interval py window_rhythm_ann_def)
  have memA: "\<And>kl. kl \<in> set ?A \<Longrightarrow>
                 \<exists>l. (fst kl, l) \<in> set ?ann0 \<and> snd kl = gii l [(sf, st)]"
    by auto
  have keys: "set (map fst ?A) \<subseteq> set (map fst rhythm_types_map)"
  proof
    fix k
    assume "k \<in> set (map fst ?A)"
    then have "k \<in> fst ` set ?A" by (simp only: set_map)
    then obtain kl where kl: "kl \<in> set ?A" "k = fst kl" by (rule imageE) blast
    from memA [OF kl(1)] obtain l where "(fst kl, l) \<in> set ?ann0" by blast
    then have "fst kl \<in> set (map fst ?ann0)" by (metis fst_conv image_eqI set_map)
    then show "k \<in> set (map fst rhythm_types_map)"
      using kl(2) by (simp add: group_by_keys rhythm_keys_def)
  qed
  let ?arr = "replicate (nat (st - sf)) (0 :: int)"
  have len: "int (length ?arr) = st - sf" using window by simp
  have ins: "\<forall>kl \<in> set ?A. \<forall>itv \<in> set (snd kl).
               sf \<le> fst itv \<and> fst itv \<le> snd itv \<and> snd itv \<le> sf + int (length ?arr)"
  proof (intro ballI)
    fix kl itv
    assume kl: "kl \<in> set ?A" and itv: "itv \<in> set (snd kl)"
    from memA [OF kl] obtain l where "snd kl = gii l [(sf, st)]" by blast
    with itv have "itv \<in> set (gii l [(sf, st)])" by simp
    with gii have "fst (sf, st) \<le> fst itv \<and> fst itv \<le> snd itv \<and> snd itv \<le> snd (sf, st)"
      by blast
    then show "sf \<le> fst itv \<and> fst itv \<le> snd itv \<and> snd itv \<le> sf + int (length ?arr)"
      using len by simp
  qed
  have src: "\<And>kl itv x. kl \<in> set ?A \<Longrightarrow> itv \<in> set (snd kl) \<Longrightarrow> covers itv x
               \<Longrightarrow> \<exists>e \<in> set seq. fst e = fst kl \<and> covers (snd e) x"
  proof -
    fix kl itv x
    assume kl: "kl \<in> set ?A" and itv: "itv \<in> set (snd kl)" and c: "covers itv x"
    from memA [OF kl] obtain l where l: "(fst kl, l) \<in> set ?ann0" "snd kl = gii l [(sf, st)]"
      by blast
    with itv have "itv \<in> set (gii l [(sf, st)])" by simp
    with gii c obtain itv' where itv': "itv' \<in> set l" "covers itv' x" by blast
    from group_by_mem [OF l(1) itv'(1)] have "(fst kl, itv') \<in> set seq" .
    with itv'(2) show "\<exists>e \<in> set seq. fst e = fst kl \<and> covers (snd e) x" by force
  qed
  from fill_mask_spec [OF keys ins]
  obtain m where m: "fill_mask sf ?A ?arr = Inr m" and lm: "length m = length ?arr"
    and spec: "\<forall>i < length ?arr.
                 if \<exists>kl \<in> set ?A. \<exists>itv \<in> set (snd kl). covers itv (sf + int i)
                 then \<exists>kl \<in> set ?A. (\<exists>itv \<in> set (snd kl). covers itv (sf + int i))
                                   \<and> map_of rhythm_types_map (fst kl) = Some (m ! i)
                 else m ! i = ?arr ! i"
    by blast
  have res: "snd (load_rhythm_ann gii db_dir rec sig_len wfdb_ann (Some sf) (Some st) rhythm_format
                    keep_original) = Inr (Mask m)"
    using window rs fmt m
    by (simp add: load_rhythm_ann_def Let_def py window_rhythm_ann_def code_N)
  have p1: "\<forall>i < length m. \<forall>kl \<in> set ?A. \<forall>itv \<in> set (snd kl).
               covers itv (sf + int i) \<longrightarrow> map_of rhythm_types_map (fst kl) = Some (m ! i)"
  proof (intro allI impI ballI)
    fix i kl itv
    assume i: "i < length m" and kl: "kl \<in> set ?A" and itv: "itv \<in> set (snd kl)"
      and c: "covers itv (sf + int i)"
    then have "\<exists>kl \<in> set ?A. \<exists>itv \<in> set (snd kl). covers itv (sf + int i)" by blast
    with spec i lm obtain kl' itv' where kl': "kl' \<in> set ?A" "itv' \<in> set (snd kl')"
      "covers itv' (sf + int i)" "map_of rhythm_types_map (fst kl') = Some (m ! i)"
      by (metis (no_types, lifting))
    from src [OF kl itv c] obtain e where e: "e \<in> set seq" "fst e = fst kl"
      "covers (snd e) (sf + int i)" by blast
    from src [OF kl'(1,2,3)] obtain e' where e': "e' \<in> set seq" "fst e' = fst kl'"
      "covers (snd e') (sf + int i)" by blast
    have "e = e'"
      using filter_at_most_one [OF atmost [rule_format, of "sf + int i"] e(1) e'(1) e(3) e'(3)] .
    then have "fst kl = fst kl'" using e(2) e'(2) by simp
    with kl'(4) show "map_of rhythm_types_map (fst kl) = Some (m ! i)" by simp
  qed
  have p2: "\<forall>i < length m.
               (\<forall>kl \<in> set ?A. \<forall>itv \<in> set (snd kl). \<not> covers itv (sf + int i))
                 \<longrightarrow> map_of rhythm_types_map ''N'' = Some (m ! i)"
  proof (intro allI impI)
    fix i
    assume i: "i < length m"
      and nc: "\<forall>kl \<in> set ?A. \<forall>itv \<in> set (snd kl). \<not> covers itv (sf + int i)"
    then have "\<not> (\<exists>kl \<in> set ?A. \<exists>itv \<in> set (snd kl). covers itv (sf + int i))" by blast
    with spec i lm have "m ! i = ?arr ! i" by auto
    also have "\<dots> = 0" using i lm by simp
    finally show "map_of rhythm_types_map ''N'' = Some (m ! i)" by (simp add: code_N)
  qed
  have l: "int (length m) = st - sf" using lm len by simp
  show ?thesis
  proof (intro exI conjI)
    show "snd (load_rhythm_ann gii db_dir rec sig_len wfdb_ann (Some sf) (Some st) ''interval'' True)
            = Inr (Intervals ?A)" by (rule iv)
    show "snd (load_rhythm_ann gii db_dir rec sig_len wfdb_ann (Some sf) (Some st) rhythm_format
                 keep_original) = Inr (Mask m)" by (rule res)
    show "int (length m) = st - sf" by (rule l)
    show "\<forall>i < length m. \<forall>kl \<in> set ?A. \<forall>itv \<in> set (snd kl).
               covers itv (sf + int i) \<longrightarrow> map_of rhythm_types_map (fst kl) = Some (m ! i)"
      by (rule p1)
    show "\<forall>i < length m.
               (\<forall>kl \<in> set ?A. \<forall>itv \<in> set (snd kl). \<not> covers itv (sf + int i))
                 \<longrightarrow> map_of rhythm_types_map ''N'' = Some (m ! i)"
      by (rule p2)
  qed
qed

theorem C2_mask_matches_intervals_witness:
  "\<exists>A m.
      snd (load_rhythm_ann clip_intervals Map.empty ''100'' 40 ([10, 20, 30], [''(AFIB'', '''', ''(N''])
             (Some 15) (Some 35) ''interval'' True) = Inr (Intervals A)
    \<and> A = [(''AFIB'', [(15, 30)]), (''NOISE'', [(30, 35)])]
    \<and> snd (load_rhythm_ann clip_intervals Map.empty ''100'' 40 ([10, 20, 30], [''(AFIB'', '''', ''(N''])
             (Some 15) (Some 35) ''MASK'' False) = Inr (Mask m)
    \<and> int (length m) = 20 \<and> m ! 5 = 2 \<and> m ! 14 = 2 \<and> m ! 15 = 9 \<and> m ! 19 = 9"
proof -
  let ?ann = "([10, 20, 30 :: int], [''(AFIB'', '''', ''(N''])"
  let ?A = "[(''AFIB'', [(15, 30)]), (''NOISE'', [(30, 35 :: int)])]"
  have scan: "full_record_scan 40 [10, 20, 30] [''(AFIB'', '''', ''(N'']
     = Inr [(''N'', [(30, 30)]), (''AB'', []), (''AFIB'', [(10, 30)]), (''B'', []), (''IVR'', []),
            (''SBR'', []), (''SVTA'', []), (''T'', []), (''VT'', []), (''NOISE'', [(0, 10), (30, 40)])]"
    by (simp add: full_record_scan_def scan_step_def rhythm_types_map_def rhythm_types_def
        strip_paren_def enumerate_eq_zip upt_rec)
  have ivA: "snd (load_rhythm_ann clip_intervals Map.empty ''100'' 40 ?ann (Some 15) (Some 35)
                    ''interval'' True) = Inr (Intervals ?A)"
    by (simp add: load_rhythm_ann_def read_or_scan_def Let_def lower_interval py_or_def scan
          window_rhythm_ann_def clip_intervals_def)
  have w: "0 \<le> (15 :: int)" "(15 :: int) < 35" "(35 :: int) \<le> 40" by simp_all
  have h1: "fst ?ann \<noteq> []" by simp
  have h2: "sorted (fst ?ann)" by simp
  have h3: "\<forall>p \<in> set (fst ?ann). 0 \<le> p" by simp
  have h4: "Map.empty (''100'' @ ''_ann.json'') = None
            \<or> (\<exists>ann. full_record_scan 40 (fst ?ann) (snd ?ann) = Inr ann
                     \<and> Map.empty (''100'' @ ''_ann.json'') = Some (JsonAnn ann))"
    by simp
  have h5: "\<forall>l w. \<forall>itv \<in> set (clip_intervals l [w]).
                fst w \<le> fst itv \<and> fst itv \<le> snd itv \<and> snd itv \<le> snd w
                \<and> (\<forall>x. covers itv x \<longrightarrow> (\<exists>itv' \<in> set l. covers itv' x))"
    by (rule clip_intervals_sound)
  have h6: "lower ''MASK'' = ''mask''"
    by (simp add: lower_def lower_char_def)
  from C2_mask_matches_intervals [OF w h1 h2 h3 h4 h5 h6, where keep_original = False]
  obtain A m where A: "snd (load_rhythm_ann clip_intervals Map.empty ''100'' 40 ?ann (Some 15) (Some 35)
                              ''interval'' True) = Inr (Intervals A)"
    and m: "snd (load_rhythm_ann clip_intervals Map.empty ''100'' 40 ?ann (Some 15) (Some 35)
                   ''MASK'' False) = Inr (Mask m)"
    and lm: "int (length m) = 35 - 15"
    and cov: "\<forall>i < length m. \<forall>kl \<in> set A. \<forall>itv \<in> set (snd kl).
                covers itv (15 + int i) \<longrightarrow> map_of rhythm_types_map (fst kl) = Some (m ! i)"
    by blast
  have AA: "A = ?A" using A ivA by simp
  have l20: "length m = 20" using lm by simp
  have c2: "map_of rhythm_types_map ''AFIB'' = Some 2" and c9: "map_of rhythm_types_map ''NOISE'' = Some 9"
    by (simp_all add: rhythm_types_map_def rhythm_types_def strip_paren_def enumerate_eq_zip upt_rec)
  have a5: "m ! 5 = 2"
    using cov [rule_format, of 5 "(''AFIB'', [(15, 30)])" "(15, 30)"] l20 c2
    by (simp add: AA covers_def)
  have a14: "m ! 14 = 2"
    using cov [rule_format, of 14 "(''AFIB'', [(15, 30)])" "(15, 30)"] l20 c2
    by (simp add: AA covers_def)
  have a15: "m ! 15 = 9"
    using cov [rule_format, of 15 "(''NOISE'', [(30, 35)])" "(30, 35)"] l20 c9
    by (simp add: AA covers_def)
  have a19: "m ! 19 = 9"
    using cov [rule_format, of 19 "(''NOISE'', [(30, 35)])" "(30, 35)"] l20 c9
    by (simp add: AA covers_def)
  show ?thesis
  proof (intro exI conjI)
    show "snd (load_rhythm_ann clip_intervals Map.empty ''100'' 40 ?ann (Some 15) (Some 35)
                 ''interval'' True) = Inr (Intervals A)" by (rule A)
    show "A = ?A" by (rule AA)
    show "snd (load_rhythm_ann clip_intervals Map.empty ''100'' 40 ?ann (Some 15) (Some 35)
                 ''MASK'' False) = Inr (Mask m)" by (rule m)
    show "int (length m) = 20" using l20 by simp
    show "m ! 5 = 2" by (rule a5)
    show "m ! 14 = 2" by (rule a14)
    show "m ! 15 = 9" by (rule a15)
    show "m ! 19 = 9" by (rule a19)
  qed
qed

section \<open>Results about the forward pass of the dense blocks\<close>















section \<open>Results about the loading of signals\<close>

lemma lower_channel_last: "lower ''channel_last'' = ''channel_last''"
  by (simp add: lower_def lower_char_def)

lemma lower_channel_first: "lower ''channel_first'' = ''channel_first''"
  by (simp add: lower_def lower_char_def)

lemma load_data_channel_last:
  "load_data times1000 rs all_leads self_fs r leads sampfrom sampto ''channel_last'' units fs return_fs
     = (case normalize_leads leads all_leads of
          Inl e \<Rightarrow> Inl e
        | Inr leads' \<Rightarrow>
            (case read_data times1000 rs all_leads self_fs r leads' sampfrom sampto units fs of
               Inl e \<Rightarrow> Inl e
             | Inr (data, data_fs) \<Rightarrow> Inr (Matrix data, if return_fs then Some data_fs else None)))"
  by (simp add: load_data_def allowed_data_format_def lower_channel_last split: sum.splits prod.splits)

lemma load_data_channel_first:
  "load_data times1000 rs all_leads self_fs r leads sampfrom sampto ''channel_first'' units fs return_fs
     = (case normalize_leads leads all_leads of
          Inl e \<Rightarrow> Inl e
        | Inr leads' \<Rightarrow>
            (case read_data times1000 rs all_leads self_fs r leads' sampfrom sampto units fs of
               Inl e \<Rightarrow> Inl e
             | Inr (data, data_fs) \<Rightarrow>
                 Inr (Matrix (matrix_T (length leads') data), if return_fs then Some data_fs else None)))"
  by (simp add: load_data_def allowed_data_format_def lower_channel_first split: sum.splits prod.splits)

lemma matrix_T_nth: "j < n \<Longrightarrow> matrix_T n m ! j = map (\<lambda>row. row ! j) m"
  by (simp add: matrix_T_def)

lemma length_matrix_T: "length (matrix_T n m) = n"
  by (simp add: matrix_T_def)

lemma list_index_mem:
  "x \<in> set xs \<Longrightarrow> \<exists>j. list_index xs x = Inr j \<and> j < length xs \<and> xs ! j = x"
  by (induction xs) (auto split: sum.splits)

lemma list_index_distinct:
  "distinct xs \<Longrightarrow> i < length xs \<Longrightarrow> list_index xs (xs ! i) = Inr i"
proof (induction xs arbitrary: i)
  case Nil
  then show ?case by simp
next
  case (Cons x xs)
  show ?case
  proof (cases i)
    case 0
    then show ?thesis by simp
  next
    case (Suc k)
    with Cons.prems have "xs ! k \<in> set xs" and "x \<notin> set xs" by auto
    then have "x \<noteq> xs ! k" by auto
    with Cons Suc show ?thesis by simp
  qed
qed

lemma sequence_sum_map_Inr:
  "sequence_sum (map f xs) = Inr ys \<Longrightarrow>
   length ys = length xs \<and> (\<forall>k < length xs. f (xs ! k) = Inr (ys ! k))"
proof (induction xs arbitrary: ys)
  case Nil
  then show ?case by simp
next
  case (Cons x xs)
  from Cons.prems obtain v vs where v: "f x = Inr v" and vs: "sequence_sum (map f xs) = Inr vs"
    and ys: "ys = v # vs"
    by (auto split: sum.splits)
  from Cons.IH [OF vs] v ys show ?case by (auto simp add: nth_Cons split: nat.splits)
qed

lemma select_select:
  "i < length cs \<Longrightarrow> select_channels [i] (select_channels cs w) = select_channels [cs ! i] w"
  by (simp add: select_channels_def)

lemma select_width: "\<forall>row \<in> set (select_channels cs w). length row = length cs"
  by (auto simp add: select_channels_def)

lemma convert_units_width:
  "\<forall>row \<in> set x. length row = n \<Longrightarrow> \<forall>row \<in> set (convert_units t u x). length row = n"
  by (auto simp add: convert_units_def)

lemma convert_units_select:
  "\<forall>row \<in> set x. i < length row \<Longrightarrow>
   convert_units t u (select_channels [i] x) = select_channels [i] (convert_units t u x)"
  by (auto simp add: convert_units_def select_channels_def)

lemma resample_to_select:
  assumes "\<forall>x i up down. (\<forall>row \<in> set x. i < length row)
             \<longrightarrow> rs (select_channels [i] x) up down = map_sum id (select_channels [i]) (rs x up down)"
    and "\<forall>row \<in> set x. i < length row"
  shows "resample_to rs f r (select_channels [i] x)
           = map_sum id (select_channels [i]) (resample_to rs f r x)"
  using assms by (simp add: resample_to_def)

lemma rdrecord_Inr:
  assumes "rdrecord r sf st ph cs = Inr sig"
  shows "\<exists>w. sig = select_channels cs w
             \<and> (\<forall>cs'. set cs' \<subseteq> set cs \<longrightarrow> rdrecord r sf st ph cs' = Inr (select_channels cs' w))"
proof -
  define s where "s = (if ph then rec_p_signal r else rec_d_signal r)"
  define t where "t = (case st of None \<Rightarrow> int (length s) | Some t \<Rightarrow> t)"
  define w where "w = take (nat (t - sf)) (drop (nat sf) s)"
  have unf: "\<And>cs'. rdrecord r sf st ph cs'
               = (if sf < 0 \<or> sf > int (length s) \<or> t < 0 \<or> t > int (length s) \<or> t \<le> sf
                     \<or> (\<exists>c \<in> set cs'. c \<ge> rec_n_sig r)
                  then Inl ValueError else Inr (select_channels cs' w))"
    unfolding rdrecord_def Let_def s_def t_def w_def by (rule refl)
  from assms have ok: "\<not> (sf < 0 \<or> sf > int (length s) \<or> t < 0 \<or> t > int (length s) \<or> t \<le> sf)"
    and okc: "\<not> (\<exists>c \<in> set cs. c \<ge> rec_n_sig r)"
    and sig: "sig = select_channels cs w"
    unfolding unf by (auto split: if_splits)
  have "\<forall>cs'. set cs' \<subseteq> set cs \<longrightarrow> rdrecord r sf st ph cs' = Inr (select_channels cs' w)"
  proof (intro allI impI)
    fix cs' :: "nat list"
    assume "set cs' \<subseteq> set cs"
    with okc have "\<not> (\<exists>c \<in> set cs'. c \<ge> rec_n_sig r)" by auto
    with ok show "rdrecord r sf st ph cs' = Inr (select_channels cs' w)"
      unfolding unf by simp
  qed
  with sig show ?thesis by blast
qed

lemma rdrecord_single:
  assumes "rdrecord r sf st ph cs = Inr sig" and "i < length cs"
  shows "rdrecord r sf st ph [cs ! i] = Inr (select_channels [i] sig)"
proof -
  from rdrecord_Inr [OF assms(1)] obtain w where sig: "sig = select_channels cs w"
    and sub: "\<forall>cs'. set cs' \<subseteq> set cs \<longrightarrow> rdrecord r sf st ph cs' = Inr (select_channels cs' w)"
    by blast
  have "set [cs ! i] \<subseteq> set cs" using assms(2) by simp
  with sub have "rdrecord r sf st ph [cs ! i] = Inr (select_channels [cs ! i] w)" by blast
  then show ?thesis unfolding sig select_select [OF assms(2)] .
qed

lemma read_data_Inr:
  assumes rd: "read_data times1000 rs all_leads self_fs r leads' sampfrom sampto units fs = Inr (d, f)"
  shows "(units = None \<or> lower (the units) \<in> set allowed_units)
       \<and> (\<exists>cs sig. sequence_sum (map (list_index all_leads) leads') = Inr cs
             \<and> rdrecord r (py_or sampfrom 0) sampto (units \<noteq> None) cs = Inr sig
             \<and> output_fs fs self_fs r = Some f
             \<and> resample_to rs f r (convert_units times1000 units sig) = Inr d)"
proof -
  from rd have units: "units = None \<or> lower (the units) \<in> set allowed_units"
    unfolding read_data_def by (meson sum.distinct(1))
  then have rd': "(case sequence_sum (map (list_index all_leads) leads') of
           Inl e \<Rightarrow> Inl e
         | Inr channels \<Rightarrow>
             (case rdrecord r (py_or sampfrom 0) sampto (units \<noteq> None) channels of
                Inl e \<Rightarrow> Inl e
              | Inr sig \<Rightarrow>
                  (case output_fs fs self_fs r of
                     None \<Rightarrow> Inl TypeError
                   | Some data_fs \<Rightarrow>
                       (case resample_to rs data_fs r (convert_units times1000 units sig) of
                          Inl e \<Rightarrow> Inl e
                        | Inr data \<Rightarrow> Inr (data, data_fs))))) = Inr (d, f)"
    using rd unfolding read_data_def by (simp only: not_True_eq_False if_False)
  obtain cs where cs: "sequence_sum (map (list_index all_leads) leads') = Inr cs"
    using rd' by (cases "sequence_sum (map (list_index all_leads) leads')") simp_all
  have rd2: "(case rdrecord r (py_or sampfrom 0) sampto (units \<noteq> None) cs of
                Inl e \<Rightarrow> Inl e
              | Inr sig \<Rightarrow>
                  (case output_fs fs self_fs r of
                     None \<Rightarrow> Inl TypeError
                   | Some data_fs \<Rightarrow>
                       (case resample_to rs data_fs r (convert_units times1000 units sig) of
                          Inl e \<Rightarrow> Inl e
                        | Inr data \<Rightarrow> Inr (data, data_fs)))) = Inr (d, f)"
    using rd' unfolding cs by (simp only: sum.case)
  obtain sig where sig: "rdrecord r (py_or sampfrom 0) sampto (units \<noteq> None) cs = Inr sig"
    using rd2 by (cases "rdrecord r (py_or sampfrom 0) sampto (units \<noteq> None) cs") simp_all
  have rd3: "(case output_fs fs self_fs r of
                None \<Rightarrow> Inl TypeError
              | Some data_fs \<Rightarrow>
                  (case resample_to rs data_fs r (convert_units times1000 units sig) of
                     Inl e \<Rightarrow> Inl e
                   | Inr data \<Rightarrow> Inr (data, data_fs))) = Inr (d, f)"
    using rd2 unfolding sig by (simp only: sum.case)
  obtain g where g: "output_fs fs self_fs r = Some g"
    using rd3 by (cases "output_fs fs self_fs r") simp_all
  have rd4: "(case resample_to rs g r (convert_units times1000 units sig) of
                Inl e \<Rightarrow> Inl e
              | Inr data \<Rightarrow> Inr (data, g)) = Inr (d, f)"
    using rd3 unfolding g by (simp only: option.case)
  obtain d' where d': "resample_to rs g r (convert_units times1000 units sig) = Inr d'"
    using rd4 by (cases "resample_to rs g r (convert_units times1000 units sig)") simp_all
  have "(Inr (d', g) :: py_error + ('a list list \<times> real)) = Inr (d, f)"
    using rd4 unfolding d' by (simp only: sum.case)
  then have "d' = d" and "g = f" by simp_all
  with units cs sig g d' show ?thesis by blast
qed

lemma read_data_returns:
  assumes "units = None \<or> lower (the units) \<in> set allowed_units"
    and "sequence_sum (map (list_index all_leads) leads') = Inr cs"
    and "rdrecord r (py_or sampfrom 0) sampto (units \<noteq> None) cs = Inr sig"
    and "output_fs fs self_fs r = Some f"
    and "resample_to rs f r (convert_units times1000 units sig) = Inr d"
  shows "read_data times1000 rs all_leads self_fs r leads' sampfrom sampto units fs = Inr (d, f)"
  unfolding read_data_def assms(2) using assms(1)
  by (simp only: not_True_eq_False if_False sum.case option.case assms(3,4,5))

lemma read_data_single:
  assumes rs: "\<forall>x i up down. (\<forall>row \<in> set x. i < length row)
             \<longrightarrow> rs (select_channels [i] x) up down = map_sum id (select_channels [i]) (rs x up down)"
    and rd: "read_data times1000 rs all_leads self_fs r leads' sampfrom sampto units fs = Inr (d, f)"
    and i: "i < length leads'"
  shows "read_data times1000 rs all_leads self_fs r [leads' ! i] sampfrom sampto units fs
           = Inr (select_channels [i] d, f)"
proof -
  from read_data_Inr [OF rd] obtain cs sig
    where units: "units = None \<or> lower (the units) \<in> set allowed_units"
      and cs: "sequence_sum (map (list_index all_leads) leads') = Inr cs"
      and sig: "rdrecord r (py_or sampfrom 0) sampto (units \<noteq> None) cs = Inr sig"
      and f: "output_fs fs self_fs r = Some f"
      and d: "resample_to rs f r (convert_units times1000 units sig) = Inr d"
    by blast
  from sequence_sum_map_Inr [OF cs] i
  have lcs: "length cs = length leads'" and ci: "list_index all_leads (leads' ! i) = Inr (cs ! i)"
    by auto
  have ics: "i < length cs" using i lcs by simp
  have one: "sequence_sum (map (list_index all_leads) [leads' ! i]) = Inr [cs ! i]"
    using ci by simp
  have sig1: "rdrecord r (py_or sampfrom 0) sampto (units \<noteq> None) [cs ! i] = Inr (select_channels [i] sig)"
    using rdrecord_single [OF sig ics] .
  from rdrecord_Inr [OF sig] obtain w0 where "sig = select_channels cs w0" by blast
  then have w: "\<forall>row \<in> set sig. length row = length cs"
    using select_width by metis
  then have w1: "\<forall>row \<in> set sig. i < length row" using ics by simp
  have w2: "\<forall>row \<in> set (convert_units times1000 units sig). i < length row"
    using convert_units_width [OF w] ics by simp
  have eq: "resample_to rs f r (convert_units times1000 units (select_channels [i] sig))
          = Inr (select_channels [i] d)"
    unfolding convert_units_select [OF w1] resample_to_select [OF rs w2] d by simp
  show ?thesis
    using read_data_returns [OF units one sig1 f eq] .
qed

lemma normalize_NoLeads: "normalize_leads NoLeads al = Inr al"
  by (simp add: normalize_leads_def)

lemma normalize_index:
  "i < length al \<Longrightarrow> normalize_leads (OneLead (LeadNum (int i))) al = Inr [al ! i]"
  by (simp add: normalize_leads_def)

lemma normalize_name:
  "LeadName s \<in> set al \<Longrightarrow> lower s \<noteq> ''all'' \<Longrightarrow>
   normalize_leads (OneLead (LeadName s)) al = Inr [LeadName s]"
  by (simp add: normalize_leads_def)

lemma matrix_T_single: "matrix_T 1 (select_channels [i] d) = [map (\<lambda>row. row ! i) d]"
  by (simp add: matrix_T_def select_channels_def comp_def)

lemma load_data_all_channel_first:
  assumes "load_data t rs al self_fs r NoLeads sampfrom sampto ''channel_first'' units fs return_fs
             = Inr (Matrix c, f)"
  shows "\<exists>d f'. read_data t rs al self_fs r al sampfrom sampto units fs = Inr (d, f')
               \<and> c = matrix_T (length al) d \<and> f = (if return_fs then Some f' else None)"
proof (cases "read_data t rs al self_fs r al sampfrom sampto units fs")
  case (Inl e)
  with assms show ?thesis by (simp add: load_data_channel_first normalize_NoLeads)
next
  case (Inr p)
  obtain d f' where p: "p = (d, f')" by (cases p)
  with assms Inr show ?thesis by (simp add: load_data_channel_first normalize_NoLeads)
qed

lemma load_data_single_channel_first:
  assumes rs: "\<forall>x i up down. (\<forall>row \<in> set x. i < length row)
             \<longrightarrow> rs (select_channels [i] x) up down = map_sum id (select_channels [i]) (rs x up down)"
    and allc: "load_data t rs al self_fs r NoLeads sampfrom sampto ''channel_first'' units fs return_fs
             = Inr (Matrix c, f)"
    and i: "i < length al"
    and n: "normalize_leads ld al = Inr [al ! i]"
  shows "load_data t rs al self_fs r ld sampfrom sampto ''channel_first'' units fs return_fs
           = Inr (Matrix [c ! i], f)"
proof -
  from load_data_all_channel_first [OF allc]
  obtain d f' where rd: "read_data t rs al self_fs r al sampfrom sampto units fs = Inr (d, f')"
    and c: "c = matrix_T (length al) d" and f: "f = (if return_fs then Some f' else None)"
    by blast
  have one: "read_data t rs al self_fs r [al ! i] sampfrom sampto units fs = Inr (select_channels [i] d, f')"
    using read_data_single [OF rs rd i] .
  have ci: "c ! i = map (\<lambda>row. row ! i) d"
    unfolding c using i by (rule matrix_T_nth)
  show ?thesis
    using matrix_T_single [of i d]
    by (simp add: load_data_channel_first n one ci f)
qed

text \<open>
  What holds for every record. Resampling along axis 0 treats every column on its own.
  Then, for the same remaining arguments: whenever \<open>load_data\<close> returns with
  "channel_last", it returns with "channel_first" the array whose row \<open>j\<close> is column
  \<open>j\<close> of the channel-last array. For all leads and "channel_first", the result has
  one row per entry of \<open>all_leads\<close>, and the load of the single lead
  \<open>all_leads[i]\<close>, given by its number or by its name, returns exactly row \<open>i\<close> of the
  result for all leads. When the entries of \<open>all_leads\<close> are distinct, row \<open>i\<close> is the
  signal of channel \<open>i\<close> of the record, in the units and at the sampling frequency asked
  for.
\<close>

lemma load_data_formats_and_leads:
  assumes rs: "\<forall>x i up down. (\<forall>row \<in> set x. i < length row)
             \<longrightarrow> rs (select_channels [i] x) up down = map_sum id (select_channels [i]) (rs x up down)"
  shows "(\<forall>leads m f.
            load_data t rs all_leads self_fs r leads sampfrom sampto ''channel_last'' units fs return_fs
              = Inr (Matrix m, f)
            \<longrightarrow> (\<exists>c leads'.
                    normalize_leads leads all_leads = Inr leads'
                  \<and> load_data t rs all_leads self_fs r leads sampfrom sampto ''channel_first'' units fs
                      return_fs = Inr (Matrix c, f)
                  \<and> length c = length leads'
                  \<and> (\<forall>j < length leads'. c ! j = map (\<lambda>row. row ! j) m)))
       \<and> (\<forall>c f.
            load_data t rs all_leads self_fs r NoLeads sampfrom sampto ''channel_first'' units fs return_fs
              = Inr (Matrix c, f)
            \<longrightarrow> length c = length all_leads
              \<and> (distinct all_leads
                   \<longrightarrow> (\<exists>w f' d.
                            rdrecord r (py_or sampfrom 0) sampto (units \<noteq> None) [0 ..< length all_leads]
                              = Inr w
                          \<and> output_fs fs self_fs r = Some f'
                          \<and> resample_to rs f' r (convert_units t units w) = Inr d
                          \<and> (\<forall>i < length all_leads. c ! i = map (\<lambda>row. row ! i) d)))
              \<and> (\<forall>i < length all_leads.
                    load_data t rs all_leads self_fs r (OneLead (LeadNum (int i))) sampfrom sampto
                      ''channel_first'' units fs return_fs = Inr (Matrix [c ! i], f))
              \<and> (\<forall>i s. i < length all_leads \<and> all_leads ! i = LeadName s \<and> lower s \<noteq> ''all''
                    \<longrightarrow> load_data t rs all_leads self_fs r (OneLead (LeadName s)) sampfrom sampto
                          ''channel_first'' units fs return_fs = Inr (Matrix [c ! i], f)))"
proof (intro conjI allI impI)
  fix leads :: leads_arg and m :: "'a list list" and f :: "real option"
  assume cl: "load_data t rs all_leads self_fs r leads sampfrom sampto ''channel_last'' units fs return_fs
              = Inr (Matrix m, f)"
  then obtain leads' where n: "normalize_leads leads all_leads = Inr leads'"
    by (cases "normalize_leads leads all_leads") (simp_all add: load_data_channel_last)
  from cl n obtain p where rd: "read_data t rs all_leads self_fs r leads' sampfrom sampto units fs = Inr p"
    by (cases "read_data t rs all_leads self_fs r leads' sampfrom sampto units fs")
       (simp_all add: load_data_channel_last)
  obtain d f' where p: "p = (d, f')" by (cases p)
  from cl n rd p have m: "m = d" and f: "f = (if return_fs then Some f' else None)"
    by (simp_all add: load_data_channel_last)
  have cf: "load_data t rs all_leads self_fs r leads sampfrom sampto ''channel_first'' units fs return_fs
              = Inr (Matrix (matrix_T (length leads') m), f)"
    using n rd p m f by (simp add: load_data_channel_first)
  show "\<exists>c leads'.
                    normalize_leads leads all_leads = Inr leads'
                  \<and> load_data t rs all_leads self_fs r leads sampfrom sampto ''channel_first'' units fs
                      return_fs = Inr (Matrix c, f)
                  \<and> length c = length leads'
                  \<and> (\<forall>j < length leads'. c ! j = map (\<lambda>row. row ! j) m)"
    using n cf by (auto simp add: length_matrix_T matrix_T_nth)
next
  fix c :: "'a list list" and f :: "real option"
  assume allc: "load_data t rs all_leads self_fs r NoLeads sampfrom sampto ''channel_first'' units fs
                  return_fs = Inr (Matrix c, f)"
  from load_data_all_channel_first [OF allc]
  show "length c = length all_leads" by (auto simp add: length_matrix_T)
next
  fix c :: "'a list list" and f :: "real option"
  assume allc: "load_data t rs all_leads self_fs r NoLeads sampfrom sampto ''channel_first'' units fs
                  return_fs = Inr (Matrix c, f)"
    and dist: "distinct all_leads"
  from load_data_all_channel_first [OF allc]
  obtain d f' where rd: "read_data t rs all_leads self_fs r all_leads sampfrom sampto units fs = Inr (d, f')"
    and c: "c = matrix_T (length all_leads) d"
    by blast
  from read_data_Inr [OF rd] obtain cs w
    where cs: "sequence_sum (map (list_index all_leads) all_leads) = Inr cs"
      and w: "rdrecord r (py_or sampfrom 0) sampto (units \<noteq> None) cs = Inr w"
      and f': "output_fs fs self_fs r = Some f'"
      and d: "resample_to rs f' r (convert_units t units w) = Inr d"
    by blast
  from sequence_sum_map_Inr [OF cs]
  have l: "length cs = length all_leads"
    and k: "\<forall>k < length all_leads. list_index all_leads (all_leads ! k) = Inr (cs ! k)"
    by auto
  have cs_eq: "cs = [0 ..< length all_leads]"
  proof (rule nth_equalityI)
    show "length cs = length [0 ..< length all_leads]" using l by simp
  next
    fix k
    assume "k < length cs"
    then have kl: "k < length all_leads" using l by simp
    with k list_index_distinct [OF dist kl] have "cs ! k = k" by simp
    with kl show "cs ! k = [0 ..< length all_leads] ! k" by simp
  qed
  have rows: "\<forall>i < length all_leads. c ! i = map (\<lambda>row. row ! i) d"
    unfolding c by (simp add: matrix_T_nth)
  show "\<exists>w f' d.
                            rdrecord r (py_or sampfrom 0) sampto (units \<noteq> None) [0 ..< length all_leads]
                              = Inr w
                          \<and> output_fs fs self_fs r = Some f'
                          \<and> resample_to rs f' r (convert_units t units w) = Inr d
                          \<and> (\<forall>i < length all_leads. c ! i = map (\<lambda>row. row ! i) d)"
    using w f' d rows unfolding cs_eq by blast
next
  fix c :: "'a list list" and f :: "real option" and i :: nat
  assume allc: "load_data t rs all_leads self_fs r NoLeads sampfrom sampto ''channel_first'' units fs
                  return_fs = Inr (Matrix c, f)"
    and i: "i < length all_leads"
  show "load_data t rs all_leads self_fs r (OneLead (LeadNum (int i))) sampfrom sampto
                      ''channel_first'' units fs return_fs = Inr (Matrix [c ! i], f)"
    using load_data_single_channel_first [OF rs allc i normalize_index [OF i]] .
next
  fix c :: "'a list list" and f :: "real option" and i :: nat and s :: string
  assume allc: "load_data t rs all_leads self_fs r NoLeads sampfrom sampto ''channel_first'' units fs
                  return_fs = Inr (Matrix c, f)"
    and a: "i < length all_leads \<and> all_leads ! i = LeadName s \<and> lower s \<noteq> ''all''"
  then have i: "i < length all_leads" and e: "all_leads ! i = LeadName s" and l: "lower s \<noteq> ''all''"
    by auto
  have "LeadName s \<in> set all_leads" using i e by (metis nth_mem)
  from normalize_name [OF this l] e
  have n: "normalize_leads (OneLead (LeadName s)) all_leads = Inr [all_leads ! i]" by simp
  show "load_data t rs all_leads self_fs r (OneLead (LeadName s)) sampfrom sampto
                          ''channel_first'' units fs return_fs = Inr (Matrix [c ! i], f)"
    using load_data_single_channel_first [OF rs allc i n] .
qed

text \<open>
  C7. The claim: row \<open>i\<close> of the channel-first result is the signal of lead
  \<open>all_leads[i]\<close>, and the load of a single lead returns that one channel. The
  channel numbers are \<open>all_leads.index(ld)\<close>, the first position of the name. A reader
  without the attribute \<open>all_leads\<close> takes the signal names of the header; for a
  record with the two signal names "ECG" and "ECG" the load of all leads returns the
  first channel twice and never the second channel, and so does the load of lead
  number 1.
\<close>

theorem C7_load_data_repeats_first_channel:
  "load_data (\<lambda>x. 1000 * x) (\<lambda>x up down. Inr x) [LeadName ''ECG'', LeadName ''ECG''] (Fs (Some 128))
     \<lparr> rec_fs = 128, rec_n_sig = 2, rec_p_signal = [[1, 2], [3, 4], [5, 6 :: int]],
       rec_d_signal = [[10, 20], [30, 40], [50, 60]] \<rparr>
     NoLeads None None ''channel_first'' (Some ''mV'') None False
     = Inr (Matrix [[1, 3, 5], [1, 3, 5]], None)
   \<and> load_data (\<lambda>x. 1000 * x) (\<lambda>x up down. Inr x) [LeadName ''ECG'', LeadName ''ECG''] (Fs (Some 128))
       \<lparr> rec_fs = 128, rec_n_sig = 2, rec_p_signal = [[1, 2], [3, 4], [5, 6 :: int]],
         rec_d_signal = [[10, 20], [30, 40], [50, 60]] \<rparr>
       (OneLead (LeadNum 1)) None None ''channel_first'' (Some ''mV'') None False
     = Inr (Matrix [[1, 3, 5]], None)
   \<and> map (\<lambda>row. row ! 1) [[1, 2], [3, 4], [5, 6 :: int]] = [2, 4, 6]"
proof -
  let ?t = "\<lambda>x :: int. 1000 * x"
  let ?rs = "\<lambda>(x :: int list list) (up :: real) (down :: real). (Inr x :: py_error + int list list)"
  let ?al = "[LeadName ''ECG'', LeadName ''ECG'']"
  let ?r = "\<lparr> rec_fs = 128, rec_n_sig = 2, rec_p_signal = [[1, 2], [3, 4], [5, 6 :: int]],
              rec_d_signal = [[10, 20], [30, 40], [50, 60]] \<rparr>"
  have lu: "lower ''mV'' = ''mv''"
    by (simp add: lower_def lower_char_def)
  have rd: "read_data ?t ?rs ?al (Fs (Some 128)) ?r ?al None None (Some ''mV'') None
              = Inr ([[1, 1], [3, 3], [5, 5]], 128)"
    by (simp add: read_data_def lu allowed_units_def rdrecord_def select_channels_def
          convert_units_def output_fs_def resample_to_def py_or_def)
  have rd1: "read_data ?t ?rs ?al (Fs (Some 128)) ?r [LeadName ''ECG''] None None (Some ''mV'') None
              = Inr ([[1], [3], [5]], 128)"
    by (simp add: read_data_def lu allowed_units_def rdrecord_def select_channels_def
          convert_units_def output_fs_def resample_to_def py_or_def)
  have n1: "normalize_leads (OneLead (LeadNum 1)) ?al = Inr [LeadName ''ECG'']"
    by (simp add: normalize_leads_def)
  have a: "load_data ?t ?rs ?al (Fs (Some 128)) ?r NoLeads None None ''channel_first'' (Some ''mV'')
             None False = Inr (Matrix [[1, 3, 5], [1, 3, 5]], None)"
    by (simp add: load_data_channel_first normalize_NoLeads rd matrix_T_def upt_rec)
  have b: "load_data ?t ?rs ?al (Fs (Some 128)) ?r (OneLead (LeadNum 1)) None None ''channel_first''
             (Some ''mV'') None False = Inr (Matrix [[1, 3, 5]], None)"
    by (simp add: load_data_channel_first n1 rd1 matrix_T_def)
  show ?thesis using a b by simp
qed

end
